theory Spec2Isabelle
  imports Main "HOL-Library.Multiset"
begin

section \<open>Merging duplicate Position rows: the command \<open>merge_duplicate_positions\<close>\<close>

text \<open>
  The command reads every \<open>Position\<close> row, groups the rows by
  \<open>(person_id, org_id, semester, year)\<close>, keeps in every group of two or more rows the
  row that comes first after a stable sort on \<open>pos\<close>, and deletes the others, unless one
  of the rows to delete has \<open>is_admin\<close> set: then it raises \<open>ValueError\<close>. Without
  \<open>--dry-run\<close> the whole of it runs inside \<open>transaction.atomic()\<close>.
\<close>

subsection \<open>Data\<close>

text \<open>
  A row of the table \<open>Position\<close>, with the fields the command reads. The primary key
  \<open>id\<close> is named \<open>position_id\<close> here (\<open>id\<close> is the identity function of HOL).
\<close>

record position =
  position_id :: int
  person_id :: int
  org_id :: int
  semester :: string
  year :: int
  pos :: int
  is_admin :: bool

type_synonym group_key = "int \<times> int \<times> string \<times> int"

text \<open>
  \<open>group_display = f"{person} in {org} ({year} {semester})"\<close>: the group key formatted
  for display, kept as its four parts (the text of the person, the text of the
  organization, the year, the semester).
\<close>

type_synonym group_display = "string \<times> string \<times> int \<times> string"

text \<open>
  The exceptions that leave \<open>_process_duplicates\<close>: the two \<open>objects.get\<close> lookups raise
  \<open>DoesNotExist\<close> when no row has the id, line 78 raises \<open>ValueError\<close> with the group
  display and the number of admin positions that would be deleted, \<open>pos.delete()\<close> may
  raise (the row's id is kept), and \<open>positions_sorted[0]\<close> raises \<open>IndexError\<close> on an
  empty list.
\<close>

datatype error =
    PersonDoesNotExist int
  | OrganizationDoesNotExist int
  | ValueError group_display nat
  | DeleteError int
  | IndexError

text \<open>The lines written to \<open>self.stdout\<close>, one constructor for each \<open>write\<close> of the source.\<close>

datatype event =
    DryRunMode
  | NoDuplicatesFound
  | FoundGroups nat
  | ProcessingGroup group_display
  | FoundPositions nat
  | ErrorAdminPositions nat
  | RollingBack
  | Keeping int int
  | Deleting nat
  | ErrorProcessingGroup group_key error
  | DryRunSummary nat nat
  | SuccessSummary nat nat

text \<open>
  What the command takes from the models and the store, as parameters: the text of the
  \<open>NaturalPerson\<close> and the \<open>Organization\<close> with a given id (\<open>None\<close> when
  \<open>objects.get\<close> finds no row), and whether the store refuses to delete a row.
\<close>

record env =
  person_str :: "int \<Rightarrow> string option"
  org_str :: "int \<Rightarrow> string option"
  delete_raises :: "position \<Rightarrow> bool"

subsection \<open>\<open>find_duplicates\<close>\<close>

definition group_key_of :: "position \<Rightarrow> group_key" where
  "group_key_of position = (person_id position, org_id position, semester position, year position)"

text \<open>
  \<open>duplicates[group_key].append(position)\<close> on a \<open>defaultdict(list)\<close>. The dictionary is
  an association list in insertion order: a key already there keeps its place and its
  list grows at the end, a new key goes last with a one-element list.
\<close>

fun dd_append :: "(group_key \<times> position list) list \<Rightarrow> group_key \<Rightarrow> position
    \<Rightarrow> (group_key \<times> position list) list" where
  "dd_append [] k p = [(k, [p])]"
| "dd_append ((k', v) # d) k p =
     (if k' = k then (k', v @ [p]) # d else (k', v) # dd_append d k p)"

text \<open>The loop of lines 135 to 142, from the empty dictionary.\<close>

definition group_positions :: "position list \<Rightarrow> (group_key \<times> position list) list" where
  "group_positions positions =
     foldl (\<lambda>duplicates position. dd_append duplicates (group_key_of position) position)
       [] positions"

text \<open>Line 145: the entries of the dictionary whose list has more than one position.\<close>

definition find_duplicates :: "position list \<Rightarrow> (group_key \<times> position list) list" where
  "find_duplicates positions = filter (\<lambda>(k, v). length v > 1) (group_positions positions)"

subsection \<open>\<open>_process_duplicates\<close>\<close>

text \<open>\<open>sorted(positions, key=lambda p: p.pos)\<close>: a stable sort on \<open>pos\<close>.\<close>

definition positions_sorted :: "position list \<Rightarrow> position list" where
  "positions_sorted positions = sort_key pos positions"

text \<open>\<open>[pos for pos in positions_sorted[1:] if pos.is_admin]\<close>; the slice of an empty list is empty.\<close>

definition admin_positions_to_delete :: "position list \<Rightarrow> position list" where
  "admin_positions_to_delete positions = filter is_admin (tl (positions_sorted positions))"

text \<open>\<open>positions_sorted[0]\<close>, which raises on an empty list.\<close>

definition keep_position :: "position list \<Rightarrow> error + position" where
  "keep_position positions =
     (case positions_sorted positions of [] \<Rightarrow> Inl IndexError | p # _ \<Rightarrow> Inr p)"

definition delete_positions :: "position list \<Rightarrow> position list" where
  "delete_positions positions = tl (positions_sorted positions)"

text \<open>\<open>pos.delete()\<close> removes the row with that primary key from the table.\<close>

definition delete_position :: "position \<Rightarrow> position list \<Rightarrow> position list" where
  "delete_position p db = filter (\<lambda>q. position_id q \<noteq> position_id p) db"

text \<open>
  The loop of lines 96 to 98: every row is deleted and counted; an exception of
  \<open>delete\<close> leaves the loop with the table as it is then.
\<close>

fun delete_each :: "env \<Rightarrow> position list \<Rightarrow> nat \<Rightarrow> position list
    \<Rightarrow> (error + nat) \<times> position list" where
  "delete_each E [] total_deleted db = (Inr total_deleted, db)"
| "delete_each E (p # ps) total_deleted db =
     (if delete_raises E p then (Inl (DeleteError (position_id p)), db)
      else delete_each E ps (total_deleted + 1) (delete_position p db))"

text \<open>
  The body of the loop over \<open>duplicates.items()\<close> (lines 49 to 110), for one group. It
  takes the counters \<open>(total_merged, total_deleted)\<close> and the table, and returns the
  exception or the new counters, the table and the lines written.
\<close>

definition process_group :: "env \<Rightarrow> bool \<Rightarrow> group_key \<times> position list \<Rightarrow> nat \<times> nat
    \<Rightarrow> position list \<Rightarrow> (error + nat \<times> nat) \<times> position list \<times> event list" where
  "process_group E dry_run g totals db =
     (case g of (group_key, positions) \<Rightarrow>
      case totals of (total_merged, total_deleted) \<Rightarrow>
      if length positions \<le> 1 then (Inr totals, db, [])
      else case group_key of (person_id', org_id', semester', year') \<Rightarrow>
        (case person_str E person_id' of
           None \<Rightarrow> (Inl (PersonDoesNotExist person_id'), db, [])
         | Some person \<Rightarrow>
        (case org_str E org_id' of
           None \<Rightarrow> (Inl (OrganizationDoesNotExist org_id'), db, [])
         | Some org \<Rightarrow>
        let group_display = (person, org, year', semester');
            out1 = [ProcessingGroup group_display, FoundPositions (length positions)]
        in if admin_positions_to_delete positions \<noteq> [] then
             (Inl (ValueError group_display (length (admin_positions_to_delete positions))), db,
              out1 @ [ErrorAdminPositions (length (admin_positions_to_delete positions)),
                      RollingBack])
           else
             (case keep_position positions of
                Inl e \<Rightarrow> (Inl e, db, out1)
              | Inr keep \<Rightarrow>
                let out2 = out1 @ [Keeping (position_id keep) (pos keep),
                                   Deleting (length (delete_positions positions))]
                in if \<not> dry_run then
                     (case delete_each E (delete_positions positions) total_deleted db of
                        (Inl e, db') \<Rightarrow>
                          (Inl e, db', out2 @ [ErrorProcessingGroup group_key e])
                      | (Inr total_deleted', db') \<Rightarrow>
                          (Inr (total_merged + 1, total_deleted'), db', out2))
                   else
                     (Inr (total_merged + 1,
                           total_deleted + length (delete_positions positions)), db, out2)))))"

text \<open>The loop itself: an exception ends it, with what was deleted and written so far.\<close>

fun process_groups :: "env \<Rightarrow> bool \<Rightarrow> (group_key \<times> position list) list \<Rightarrow> nat \<times> nat
    \<Rightarrow> position list \<Rightarrow> (error + nat \<times> nat) \<times> position list \<times> event list" where
  "process_groups E dry_run [] totals db = (Inr totals, db, [])"
| "process_groups E dry_run (g # gs) totals db =
     (case process_group E dry_run g totals db of
        (Inl e, db', out1) \<Rightarrow> (Inl e, db', out1)
      | (Inr totals', db', out1) \<Rightarrow>
          (case process_groups E dry_run gs totals' db' of
             (r, db'', out2) \<Rightarrow> (r, db'', out1 @ out2)))"

text \<open>
  \<open>_process_duplicates(dry_run)\<close> on the table \<open>db\<close>: the exception raised, if any, the
  table afterwards (before any rollback) and the lines written.
\<close>

definition process_duplicates :: "env \<Rightarrow> bool \<Rightarrow> position list
    \<Rightarrow> error option \<times> position list \<times> event list" where
  "process_duplicates E dry_run db =
     (let duplicates = find_duplicates db in
      if duplicates = [] then (None, db, [NoDuplicatesFound])
      else
        (case process_groups E dry_run duplicates (0, 0) db of
           (Inl e, db', out1) \<Rightarrow> (Some e, db', FoundGroups (length duplicates) # out1)
         | (Inr (total_merged, total_deleted), db', out1) \<Rightarrow>
             (None, db', FoundGroups (length duplicates) # out1 @
                [if dry_run then DryRunSummary total_merged total_deleted
                 else SuccessSummary total_merged total_deleted])))"

subsection \<open>\<open>handle\<close>\<close>

text \<open>
  \<open>with transaction.atomic():\<close> around a block: when the block raises, the table is
  what it was on entry; the exception and what was written to the output stay.
\<close>

definition atomic :: "(position list \<Rightarrow> error option \<times> position list \<times> event list)
    \<Rightarrow> position list \<Rightarrow> error option \<times> position list \<times> event list" where
  "atomic block db =
     (case block db of
        (Some e, db', out1) \<Rightarrow> (Some e, db, out1)
      | (None, db', out1) \<Rightarrow> (None, db', out1))"

definition handle :: "env \<Rightarrow> bool \<Rightarrow> position list
    \<Rightarrow> error option \<times> position list \<times> event list" where
  "handle E dry_run db =
     (let out0 = (if dry_run then [DryRunMode] else []) in
      case (if \<not> dry_run then atomic (process_duplicates E dry_run) db
            else process_duplicates E dry_run db) of
        (r, db', out1) \<Rightarrow> (r, db', out0 @ out1))"

subsection \<open>Notions used in the statements\<close>

text \<open>
  The store behaves: every person and organization a position refers to can be looked
  up (referential integrity), and no deletion is refused.
\<close>

definition lookups_succeed :: "env \<Rightarrow> position list \<Rightarrow> bool" where
  "lookups_succeed E db \<longleftrightarrow>
     (\<forall>p\<in>set db. person_str E (person_id p) \<noteq> None \<and> org_str E (org_id p) \<noteq> None)"

definition deletes_succeed :: "env \<Rightarrow> position list \<Rightarrow> bool" where
  "deletes_succeed E db \<longleftrightarrow> (\<forall>p\<in>set db. \<not> delete_raises E p)"

text \<open>
  A group that the loop body merges without an exception: it has two positions or more,
  none of the positions to delete is an admin position, both lookups succeed and, when
  rows are really deleted, no deletion is refused.
\<close>

definition clean_group :: "env \<Rightarrow> bool \<Rightarrow> group_key \<times> position list \<Rightarrow> bool" where
  "clean_group E dry_run d \<longleftrightarrow>
     1 < length (snd d) \<and> admin_positions_to_delete (snd d) = [] \<and>
     person_str E (fst (fst d)) \<noteq> None \<and> org_str E (fst (snd (fst d))) \<noteq> None \<and>
     (dry_run \<or> (\<forall>p\<in>set (delete_positions (snd d)). \<not> delete_raises E p))"

text \<open>The primary keys of the positions to delete in the given groups.\<close>

definition deleted_ids :: "(group_key \<times> position list) list \<Rightarrow> int set" where
  "deleted_ids ds = position_id ` (\<Union>(k, g)\<in>set ds. set (delete_positions g))"

text \<open>
  The two modes write the same lines but for the summary; this maps the line of a
  run that deletes to the line of a dry run.
\<close>

fun dry_run_line :: "event \<Rightarrow> event" where
  "dry_run_line (SuccessSummary m d) = DryRunSummary m d"
| "dry_run_line e = e"

subsection \<open>Example tables\<close>

definition example_env :: env where
  "example_env =
     \<lparr>person_str = (\<lambda>i. if i = 1 then Some ''Li'' else if i = 2 then Some ''Wang''
                         else if i = 3 then Some ''Zhao'' else None),
      org_str = (\<lambda>i. if i = 7 then Some ''Chess Club'' else None),
      delete_raises = (\<lambda>p. False)\<rparr>"

text \<open>A position of the organization 7 in the autumn of 2024.\<close>

definition mk_position :: "int \<Rightarrow> int \<Rightarrow> int \<Rightarrow> bool \<Rightarrow> position" where
  "mk_position i person rank admin =
     \<lparr>position_id = i, person_id = person, org_id = 7, semester = ''Fall'', year = 2024,
      pos = rank, is_admin = admin\<rparr>"

text \<open>Two groups, of three and of two positions, none of them an admin position.\<close>

definition db_two :: "position list" where
  "db_two = [mk_position 1 1 3 False, mk_position 4 2 1 False, mk_position 2 1 1 False,
             mk_position 5 2 2 False, mk_position 3 1 2 False]"

text \<open>Two positions of one group with the same \<open>pos\<close>; the larger id is enumerated first.\<close>

definition db_tie :: "position list" where
  "db_tie = [mk_position 9 1 1 False, mk_position 8 1 1 False]"

text \<open>One group whose position with the least \<open>pos\<close> is an admin position.\<close>

definition db_admin_first :: "position list" where
  "db_admin_first = [mk_position 6 1 5 False, mk_position 7 1 0 True]"

text \<open>
  Three groups: the first merges, the second has an admin position among the positions
  to delete, the third comes after it.
\<close>

definition db_violation :: "position list" where
  "db_violation = [mk_position 4 2 1 False, mk_position 5 2 2 False, mk_position 1 1 3 False,
                   mk_position 2 1 1 False, mk_position 3 1 2 True, mk_position 10 3 1 False,
                   mk_position 11 3 2 False]"

text \<open>A store that refuses to delete the position with id 1.\<close>

definition failing_env :: env where
  "failing_env = example_env\<lparr>delete_raises := (\<lambda>p. position_id p = 1)\<rparr>"

text \<open>Two persons whose text is the same, and one group of each with an admin position to delete.\<close>

definition same_name_env :: env where
  "same_name_env =
     example_env\<lparr>person_str := (\<lambda>i. if i = 1 \<or> i = 2 then Some ''Li'' else None)\<rparr>"

definition db_person_one :: "position list" where
  "db_person_one = [mk_position 1 1 1 False, mk_position 2 1 2 True]"

definition db_person_two :: "position list" where
  "db_person_two = [mk_position 1 2 1 False, mk_position 2 2 2 True]"

section \<open>Facts about the model\<close>

lemma map_fst_dd_append:
  "map fst (dd_append d k p) = (if k \<in> fst ` set d then map fst d else map fst d @ [k])"
  by (induction d k p rule: dd_append.induct) auto

lemma distinct_dd_append:
  "distinct (map fst d) \<Longrightarrow> distinct (map fst (dd_append d k p))"
  by (simp add: map_fst_dd_append)

lemma map_of_dd_append:
  "map_of (dd_append d k p) k' =
     (if k' = k then Some (case map_of d k of None \<Rightarrow> [p] | Some v \<Rightarrow> v @ [p])
      else map_of d k')"
  by (induction d k p rule: dd_append.induct) auto

lemma group_positions_snoc:
  "group_positions (xs @ [x]) = dd_append (group_positions xs) (group_key_of x) x"
  by (simp add: group_positions_def)

lemma distinct_group_positions: "distinct (map fst (group_positions xs))"
  by (induction xs rule: rev_induct)
     (simp_all add: group_positions_snoc distinct_dd_append, simp add: group_positions_def)

lemma map_of_group_positions:
  "map_of (group_positions xs) k =
     (if k \<in> group_key_of ` set xs then Some (filter (\<lambda>p. group_key_of p = k) xs) else None)"
proof (induction xs arbitrary: k rule: rev_induct)
  case Nil
  show ?case by (simp add: group_positions_def)
next
  case (snoc x xs)
  show ?case
  proof (cases "k = group_key_of x")
    case True
    show ?thesis
    proof (cases "group_key_of x \<in> group_key_of ` set xs")
      case True
      with \<open>k = group_key_of x\<close> show ?thesis
        by (simp add: group_positions_snoc map_of_dd_append snoc.IH)
    next
      case False
      then have "filter (\<lambda>p. group_key_of p = group_key_of x) xs = []"
        unfolding filter_empty_conv by (metis imageI)
      with False \<open>k = group_key_of x\<close> show ?thesis
        by (simp add: group_positions_snoc map_of_dd_append snoc.IH)
    qed
  next
    case False
    then show ?thesis
      by (auto simp add: group_positions_snoc map_of_dd_append snoc.IH)
  qed
qed

lemma group_positions_iff:
  "(k, g) \<in> set (group_positions xs) \<longleftrightarrow>
     g \<noteq> [] \<and> g = filter (\<lambda>p. group_key_of p = k) xs"
proof -
  have "(k, g) \<in> set (group_positions xs) \<longleftrightarrow> map_of (group_positions xs) k = Some g"
    using distinct_group_positions by simp
  also have "\<dots> \<longleftrightarrow> g \<noteq> [] \<and> g = filter (\<lambda>p. group_key_of p = k) xs"
    by (auto simp add: map_of_group_positions filter_empty_conv)
  finally show ?thesis .
qed

lemma find_duplicates_iff:
  "(k, g) \<in> set (find_duplicates xs) \<longleftrightarrow>
     1 < length g \<and> g = filter (\<lambda>p. group_key_of p = k) xs"
  by (auto simp add: find_duplicates_def group_positions_iff)

lemma distinct_find_duplicates: "distinct (map fst (find_duplicates xs))"
  unfolding find_duplicates_def by (rule distinct_map_filter) (rule distinct_group_positions)

lemma length_positions_sorted [simp]: "length (positions_sorted g) = length g"
  by (simp add: positions_sorted_def)

lemma length_delete_positions [simp]: "length (delete_positions g) = length g - 1"
  by (simp add: delete_positions_def)

lemma positions_sorted_Nil_iff [simp]: "positions_sorted g = [] \<longleftrightarrow> g = []"
  using length_positions_sorted [of g] by (metis length_0_conv)

lemma positions_sorted_Cons:
  "g \<noteq> [] \<Longrightarrow> positions_sorted g = hd (positions_sorted g) # delete_positions g"
  by (simp add: delete_positions_def)

lemma keep_position_Inr:
  "g \<noteq> [] \<Longrightarrow> keep_position g = Inr (hd (positions_sorted g))"
  by (cases "positions_sorted g") (simp_all add: keep_position_def)

lemma delete_each_cases:
  "(\<exists>i db'. delete_each E ps td db = (Inl (DeleteError i), db')) \<or>
   delete_each E ps td db =
     (Inr (td + length ps), filter (\<lambda>q. position_id q \<notin> position_id ` set ps) db)"
proof (induction ps arbitrary: td db)
  case Nil
  show ?case by simp
next
  case (Cons p ps)
  show ?case
  proof (cases "delete_raises E p")
    case True
    then show ?thesis by simp
  next
    case False
    from Cons.IH [of "td + 1" "delete_position p db"] False show ?thesis
      by (auto simp add: delete_position_def conj_commute)
  qed
qed

lemma delete_each_ok:
  "\<forall>p\<in>set ps. \<not> delete_raises E p \<Longrightarrow>
   delete_each E ps td db =
     (Inr (td + length ps), filter (\<lambda>q. position_id q \<notin> position_id ` set ps) db)"
proof (induction ps arbitrary: td db)
  case Nil
  show ?case by simp
next
  case (Cons p ps)
  then show ?case
    by (auto simp add: delete_position_def conj_commute)
qed

lemma process_group_short:
  "length g \<le> 1 \<Longrightarrow> process_group E dry (k, g) t db = (Inr t, db, [])"
  by (simp add: process_group_def split: prod.splits)

lemma process_group_violation:
  assumes "1 < length g" and "person_str E pid = Some person" and "org_str E oid = Some org"
    and "admin_positions_to_delete g \<noteq> []"
  shows "process_group E dry ((pid, oid, sem, yr), g) t db =
    (Inl (ValueError (person, org, yr, sem) (length (admin_positions_to_delete g))), db,
     [ProcessingGroup (person, org, yr, sem), FoundPositions (length g),
      ErrorAdminPositions (length (admin_positions_to_delete g)), RollingBack])"
  using assms by (simp add: process_group_def Let_def split: prod.splits)

lemma process_group_dry:
  assumes "1 < length g" and "person_str E pid = Some person" and "org_str E oid = Some org"
    and "admin_positions_to_delete g = []"
  shows "process_group E True ((pid, oid, sem, yr), g) (tm, td) db =
    (Inr (tm + 1, td + (length g - 1)), db,
     [ProcessingGroup (person, org, yr, sem), FoundPositions (length g),
      Keeping (position_id (hd (positions_sorted g))) (pos (hd (positions_sorted g))),
      Deleting (length g - 1)])"
proof -
  from assms(1) have "g \<noteq> []" by auto
  with assms show ?thesis
    by (simp add: process_group_def Let_def keep_position_Inr)
qed

lemma process_group_mutating:
  assumes "1 < length g" and "person_str E pid = Some person" and "org_str E oid = Some org"
    and "admin_positions_to_delete g = []"
    and "\<forall>p\<in>set (delete_positions g). \<not> delete_raises E p"
  shows "process_group E False ((pid, oid, sem, yr), g) (tm, td) db =
    (Inr (tm + 1, td + (length g - 1)),
     filter (\<lambda>q. position_id q \<notin> position_id ` set (delete_positions g)) db,
     [ProcessingGroup (person, org, yr, sem), FoundPositions (length g),
      Keeping (position_id (hd (positions_sorted g))) (pos (hd (positions_sorted g))),
      Deleting (length g - 1)])"
proof -
  from assms(1) have "g \<noteq> []" by auto
  with assms show ?thesis
    by (simp add: process_group_def Let_def keep_position_Inr delete_each_ok)
qed

text \<open>Whatever the store does: a group with an admin position to delete ends in an exception,
  and nothing is deleted for it.\<close>

lemma process_group_violation_raises:
  assumes "1 < length g" and "admin_positions_to_delete g \<noteq> []"
  shows "\<exists>e out. process_group E dry (k, g) t db = (Inl e, db, out)"
  using assms
  by (cases k) (simp add: process_group_def Let_def split: prod.splits option.splits)

lemma process_group_Inr:
  assumes "process_group E dry (k, g) (tm, td) db = (Inr (tm', td'), db', out)"
    and "1 < length g"
  shows "admin_positions_to_delete g = [] \<and> tm' = tm + 1 \<and> td' = td + (length g - 1) \<and>
    db' = (if dry then db
           else filter (\<lambda>q. position_id q \<notin> position_id ` set (delete_positions g)) db)"
proof -
  from assms(2) have ne: "g \<noteq> []" by auto
  obtain pid oid sem yr where k: "k = (pid, oid, sem, yr)" by (cases k) auto
  from delete_each_cases [of E "delete_positions g" td db]
  show ?thesis
  proof
    assume "\<exists>i db'. delete_each E (delete_positions g) td db = (Inl (DeleteError i), db')"
    then obtain i db2 where "delete_each E (delete_positions g) td db = (Inl (DeleteError i), db2)"
      by blast
    with assms ne k show ?thesis
      by (auto simp add: process_group_def keep_position_Inr Let_def
          split: option.splits if_splits)
  next
    assume "delete_each E (delete_positions g) td db =
      (Inr (td + length (delete_positions g)),
       filter (\<lambda>q. position_id q \<notin> position_id ` set (delete_positions g)) db)"
    with assms ne k show ?thesis
      by (auto simp add: process_group_def keep_position_Inr Let_def
          split: option.splits if_splits)
  qed
qed

lemma process_group_dry_db: "fst (snd (process_group E True g t db)) = db"
  by (cases g; cases t)
     (auto simp add: process_group_def Let_def split: option.splits sum.splits prod.splits)

lemma process_group_parity:
  assumes "process_group E False g t db = (r, db', out)"
    and "\<forall>i. r \<noteq> Inl (DeleteError i)"
  shows "process_group E True g t db0 = (r, db0, out)"
proof -
  obtain k ps where g: "g = (k, ps)" by (cases g) auto
  obtain pid oid sem yr where k: "k = (pid, oid, sem, yr)" by (cases k) auto
  obtain tm td where t: "t = (tm, td)" by (cases t) auto
  from delete_each_cases [of E "delete_positions ps" td db]
  show ?thesis
  proof
    assume "\<exists>i db'. delete_each E (delete_positions ps) td db = (Inl (DeleteError i), db')"
    then obtain i db2 where "delete_each E (delete_positions ps) td db = (Inl (DeleteError i), db2)"
      by blast
    with assms g k t show ?thesis
      by (auto simp add: process_group_def Let_def
          split: option.splits if_splits sum.splits)
  next
    assume "delete_each E (delete_positions ps) td db =
      (Inr (td + length (delete_positions ps)),
       filter (\<lambda>q. position_id q \<notin> position_id ` set (delete_positions ps)) db)"
    with assms g k t show ?thesis
      by (auto simp add: process_group_def Let_def
          split: option.splits if_splits sum.splits)
  qed
qed

lemma process_groups_append:
  "process_groups E dry (xs @ ys) t db =
     (case process_groups E dry xs t db of
        (Inl e, db', out1) \<Rightarrow> (Inl e, db', out1)
      | (Inr t', db', out1) \<Rightarrow>
          (case process_groups E dry ys t' db' of (r, db'', out2) \<Rightarrow> (r, db'', out1 @ out2)))"
  by (induction xs arbitrary: t db)
     (auto split: prod.splits sum.splits)

lemma process_groups_Inr:
  assumes "process_groups E dry ds (tm, td) db = (Inr (tm', td'), db', out)"
    and "\<forall>(k, g)\<in>set ds. 1 < length g"
  shows "(\<forall>(k, g)\<in>set ds. admin_positions_to_delete g = []) \<and>
    tm' = tm + length ds \<and>
    td' = td + sum_list (map (\<lambda>(k, g). length g - 1) ds) \<and>
    db' = (if dry then db
           else filter (\<lambda>q. position_id q \<notin>
                  position_id ` (\<Union>(k, g)\<in>set ds. set (delete_positions g))) db)"
  using assms
proof (induction ds arbitrary: tm td db out)
  case Nil
  then show ?case by simp
next
  case (Cons d ds)
  obtain k g where d: "d = (k, g)" by (cases d) auto
  from Cons.prems(2) d have len: "1 < length g" by simp
  from Cons.prems(1) d obtain tm1 td1 db1 out1 out2 where
    step: "process_group E dry (k, g) (tm, td) db = (Inr (tm1, td1), db1, out1)" and
    rest: "process_groups E dry ds (tm1, td1) db1 = (Inr (tm', td'), db', out2)"
    by (auto split: prod.splits sum.splits)
  from process_group_Inr [OF step len] have
    g: "admin_positions_to_delete g = []" "tm1 = tm + 1" "td1 = td + (length g - 1)"
    "db1 = (if dry then db
            else filter (\<lambda>q. position_id q \<notin> position_id ` set (delete_positions g)) db)"
    by simp_all
  from Cons.prems(2) have "\<forall>(k, g)\<in>set ds. 1 < length g" by simp
  from Cons.IH [OF rest this] have
    r: "\<forall>(k, g)\<in>set ds. admin_positions_to_delete g = []" "tm' = tm1 + length ds"
    "td' = td1 + sum_list (map (\<lambda>(k, g). length g - 1) ds)"
    "db' = (if dry then db1
            else filter (\<lambda>q. position_id q \<notin>
                   position_id ` (\<Union>(k, g)\<in>set ds. set (delete_positions g))) db1)"
    by simp_all
  have "db' = (if dry then db
           else filter (\<lambda>q. position_id q \<notin>
                  position_id ` (\<Union>(k, g)\<in>set (d # ds). set (delete_positions g))) db)"
    using g(4) r(4) d by (auto simp add: image_Un conj_commute)
  with g r d show ?case by simp
qed

lemma process_groups_violation_raises:
  assumes "\<forall>(k, g)\<in>set ds. 1 < length g"
    and "\<exists>(k, g)\<in>set ds. admin_positions_to_delete g \<noteq> []"
  shows "\<exists>e db' out. process_groups E dry ds t db = (Inl e, db', out)"
proof (cases "process_groups E dry ds t db")
  case (fields r db' out)
  show ?thesis
  proof (cases r)
    case (Inl e)
    with fields show ?thesis by simp
  next
    case (Inr t')
    obtain tm td where "t = (tm, td)" by (cases t) auto
    moreover obtain tm' td' where "t' = (tm', td')" by (cases t') auto
    ultimately have "process_groups E dry ds (tm, td) db = (Inr (tm', td'), db', out)"
      using fields Inr by simp
    from process_groups_Inr [OF this assms(1)] assms(2) show ?thesis by blast
  qed
qed

lemma process_groups_dry_db: "fst (snd (process_groups E True ds t db)) = db"
proof (induction ds arbitrary: t)
  case Nil
  show ?case by simp
next
  case (Cons d ds)
  show ?case
  proof (cases "process_group E True d t db")
    case (fields r db1 out1)
    with process_group_dry_db [of E d t db] have "db1 = db" by simp
    with fields Cons.IH show ?thesis
      by (auto split: sum.splits prod.splits) (metis fst_conv snd_conv)
  qed
qed

lemma process_groups_parity:
  assumes "process_groups E False ds t db = (r, db', out)"
    and "\<forall>i. r \<noteq> Inl (DeleteError i)"
  shows "process_groups E True ds t db0 = (r, db0, out)"
  using assms
proof (induction ds arbitrary: t db out)
  case Nil
  then show ?case by simp
next
  case (Cons d ds)
  show ?case
  proof (cases "process_group E False d t db")
    case (fields r1 db1 out1)
    show ?thesis
    proof (cases r1)
      case (Inl e)
      with fields Cons.prems have "r = Inl e" "out = out1" by simp_all
      with process_group_parity [of E d t db r1 db1 out1 db0] fields Inl Cons.prems(2)
      show ?thesis by simp
    next
      case (Inr t1)
      with process_group_parity [of E d t db r1 db1 out1 db0] fields
      have dry1: "process_group E True d t db0 = (Inr t1, db0, out1)" by simp
      from Cons.prems(1) fields Inr obtain out2 where
        rest: "process_groups E False ds t1 db1 = (r, db', out2)" and out: "out = out1 @ out2"
        by (auto split: prod.splits)
      from Cons.IH [OF rest Cons.prems(2)] dry1 out show ?thesis by simp
    qed
  qed
qed

lemma process_groups_ok:
  assumes "\<forall>d\<in>set ds. clean_group E dry d"
  shows "\<exists>out. process_groups E dry ds (tm, td) db =
    (Inr (tm + length ds, td + sum_list (map (\<lambda>(k, g). length g - 1) ds)),
     (if dry then db
      else filter (\<lambda>q. position_id q \<notin>
             position_id ` (\<Union>(k, g)\<in>set ds. set (delete_positions g))) db), out)"
  using assms
proof (induction ds arbitrary: tm td db)
  case Nil
  show ?case by simp
next
  case (Cons d ds)
  obtain pid oid sem yr g where d: "d = ((pid, oid, sem, yr), g)" by (cases d) auto
  from Cons.prems d obtain person org where
    g: "1 < length g" "admin_positions_to_delete g = []"
       "person_str E pid = Some person" "org_str E oid = Some org"
       "dry \<or> (\<forall>p\<in>set (delete_positions g). \<not> delete_raises E p)"
    by (auto simp add: clean_group_def)
  let ?db1 = "if dry then db
      else filter (\<lambda>q. position_id q \<notin> position_id ` set (delete_positions g)) db"
  have "\<exists>out1. process_group E dry d (tm, td) db = (Inr (tm + 1, td + (length g - 1)), ?db1, out1)"
  proof (cases dry)
    case True
    with process_group_dry [OF g(1,3,4,2)] d show ?thesis by simp
  next
    case False
    with g(5) have "\<forall>p\<in>set (delete_positions g). \<not> delete_raises E p" by simp
    from process_group_mutating [OF g(1,3,4,2) this] d False show ?thesis by simp
  qed
  then obtain out1 where
    step: "process_group E dry d (tm, td) db = (Inr (tm + 1, td + (length g - 1)), ?db1, out1)"
    by blast
  from Cons.prems have "\<forall>d\<in>set ds. clean_group E dry d"
    by simp
  from Cons.IH [OF this, of "tm + 1" "td + (length g - 1)" ?db1] obtain out2 where
    rest: "process_groups E dry ds (tm + 1, td + (length g - 1)) ?db1 =
      (Inr (tm + 1 + length ds, td + (length g - 1) + sum_list (map (\<lambda>(k, g). length g - 1) ds)),
       (if dry then ?db1
        else filter (\<lambda>q. position_id q \<notin>
               position_id ` (\<Union>(k, g)\<in>set ds. set (delete_positions g))) ?db1), out2)"
    by blast
  have "(if dry then ?db1
        else filter (\<lambda>q. position_id q \<notin>
               position_id ` (\<Union>(k, g)\<in>set ds. set (delete_positions g))) ?db1) =
      (if dry then db
       else filter (\<lambda>q. position_id q \<notin>
               position_id ` (\<Union>(k, g)\<in>set (d # ds). set (delete_positions g))) db)"
    using d by (auto simp add: image_Un conj_commute)
  with step rest d show ?case by simp
qed

lemma find_duplicates_length: "\<forall>(k, g)\<in>set (find_duplicates db). 1 < length g"
  by (auto simp add: find_duplicates_iff)

lemma set_delete_positions: "set (delete_positions g) \<subseteq> set g"
proof
  fix x assume "x \<in> set (delete_positions g)"
  then have "x \<in> set (positions_sorted g)"
    unfolding delete_positions_def by (cases "positions_sorted g") simp_all
  then show "x \<in> set g" by (simp add: positions_sorted_def)
qed

lemma find_duplicates_clean:
  assumes "(k, g) \<in> set (find_duplicates db)" and "admin_positions_to_delete g = []"
    and "lookups_succeed E db" and "dry \<or> deletes_succeed E db"
  shows "clean_group E dry (k, g)"
proof -
  from assms(1) have len: "1 < length g" and g: "g = filter (\<lambda>p. group_key_of p = k) db"
    unfolding find_duplicates_iff by blast+
  from len obtain p where "p \<in> set g" by (cases g) auto
  with g have p: "p \<in> set db" "group_key_of p = k" by auto
  with assms(3) have "person_str E (fst k) \<noteq> None" "org_str E (fst (snd k)) \<noteq> None"
    by (auto simp add: lookups_succeed_def group_key_of_def)
  moreover have "dry \<or> (\<forall>p\<in>set (delete_positions g). \<not> delete_raises E p)"
  proof (cases dry)
    case True
    then show ?thesis by simp
  next
    case False
    with assms(4) have "\<forall>p\<in>set db. \<not> delete_raises E p" by (simp add: deletes_succeed_def)
    moreover have "set (delete_positions g) \<subseteq> set db"
      using set_delete_positions [of g] g by auto
    ultimately show ?thesis by blast
  qed
  ultimately show ?thesis using len assms(2) by (simp add: clean_group_def)
qed

lemma process_duplicates_cases:
  "process_duplicates E dry db = (r, db', out) \<Longrightarrow>
   (find_duplicates db = [] \<and> r = None \<and> db' = db \<and> out = [NoDuplicatesFound]) \<or>
   (find_duplicates db \<noteq> [] \<and>
    (\<exists>e out1. process_groups E dry (find_duplicates db) (0, 0) db = (Inl e, db', out1) \<and>
       r = Some e \<and> out = FoundGroups (length (find_duplicates db)) # out1)) \<or>
   (find_duplicates db \<noteq> [] \<and>
    (\<exists>tm td out1. process_groups E dry (find_duplicates db) (0, 0) db = (Inr (tm, td), db', out1) \<and>
       r = None \<and> out = FoundGroups (length (find_duplicates db)) # out1 @
        [if dry then DryRunSummary tm td else SuccessSummary tm td]))"
  by (auto simp add: process_duplicates_def Let_def split: prod.splits sum.splits if_splits)

lemma process_duplicates_None:
  assumes "process_duplicates E dry db = (None, db', out)"
  shows "(find_duplicates db = [] \<and> db' = db \<and> out = [NoDuplicatesFound]) \<or>
   (find_duplicates db \<noteq> [] \<and>
    (\<forall>(k, g)\<in>set (find_duplicates db). admin_positions_to_delete g = []) \<and>
    db' = (if dry then db else filter (\<lambda>q. position_id q \<notin> deleted_ids (find_duplicates db)) db) \<and>
    (\<exists>out1. out = FoundGroups (length (find_duplicates db)) # out1 @
       [if dry then DryRunSummary (length (find_duplicates db)) (sum_list (map (\<lambda>(k, g). length g - 1) (find_duplicates db)))
        else SuccessSummary (length (find_duplicates db)) (sum_list (map (\<lambda>(k, g). length g - 1) (find_duplicates db)))]))"
proof -
  from process_duplicates_cases [OF assms]
  consider "find_duplicates db = []" "db' = db" "out = [NoDuplicatesFound]"
    | tm td out1 where "find_duplicates db \<noteq> []"
      "process_groups E dry (find_duplicates db) (0, 0) db = (Inr (tm, td), db', out1)"
      "out = FoundGroups (length (find_duplicates db)) # out1 @
        [if dry then DryRunSummary tm td else SuccessSummary tm td]"
    by auto
  then show ?thesis
  proof cases
    case 1
    then show ?thesis by simp
  next
    case 2
    from process_groups_Inr [OF 2(2) find_duplicates_length] 2(1,3)
    show ?thesis by (auto simp add: deleted_ids_def)
  qed
qed

lemma process_duplicates_dry_db: "fst (snd (process_duplicates E True db)) = db"
proof (cases "process_groups E True (find_duplicates db) (0, 0) db")
  case (fields r db' out)
  with process_groups_dry_db [of E "find_duplicates db" "(0, 0)" db] have "db' = db" by simp
  with fields show ?thesis
    by (auto simp add: process_duplicates_def Let_def split: sum.splits)
qed

lemma handle_dry:
  "handle E True db =
     (fst (process_duplicates E True db), db, DryRunMode # snd (snd (process_duplicates E True db)))"
  using process_duplicates_dry_db [of E db]
  by (cases "process_duplicates E True db") (simp add: handle_def)

lemma handle_mutating:
  "handle E False db =
     (fst (process_duplicates E False db),
      (if fst (process_duplicates E False db) = None
       then fst (snd (process_duplicates E False db)) else db),
      snd (snd (process_duplicates E False db)))"
  by (cases "process_duplicates E False db")
     (auto simp add: handle_def atomic_def split: option.splits)

lemma process_groups_first_violation:
  assumes "\<forall>d\<in>set pre. clean_group E dry d"
    and "1 < length g" and "person_str E pid = Some person" and "org_str E oid = Some org"
    and "admin_positions_to_delete g \<noteq> []"
  shows "\<exists>out. process_groups E dry (pre @ ((pid, oid, sem, yr), g) # post) (tm, td) db =
    (Inl (ValueError (person, org, yr, sem) (length (admin_positions_to_delete g))),
     (if dry then db else filter (\<lambda>q. position_id q \<notin> deleted_ids pre) db),
     out @ [ProcessingGroup (person, org, yr, sem), FoundPositions (length g),
            ErrorAdminPositions (length (admin_positions_to_delete g)), RollingBack])"
proof -
  from process_groups_ok [OF assms(1), of tm td db] obtain out where
    pre: "process_groups E dry pre (tm, td) db =
      (Inr (tm + length pre, td + sum_list (map (\<lambda>(k, g). length g - 1) pre)),
       (if dry then db else filter (\<lambda>q. position_id q \<notin> deleted_ids pre) db), out)"
    unfolding deleted_ids_def by blast
  show ?thesis
    unfolding process_groups_append pre
    by (simp add: process_group_violation [OF assms(2-5)])
qed

lemma find_duplicates_prefix_clean:
  assumes "find_duplicates db = pre @ d # post"
    and "\<forall>(k, g)\<in>set pre. admin_positions_to_delete g = []"
    and "lookups_succeed E db" and "dry \<or> deletes_succeed E db"
  shows "\<forall>d\<in>set pre. clean_group E dry d"
proof
  fix d' assume d': "d' \<in> set pre"
  obtain k g where kg: "d' = (k, g)" by (cases d') auto
  with d' assms(1) have "(k, g) \<in> set (find_duplicates db)" by simp
  moreover from d' kg assms(2) have "admin_positions_to_delete g = []" by auto
  ultimately show "clean_group E dry d'"
    using find_duplicates_clean assms(3,4) kg by blast
qed

lemma handle_first_violation:
  assumes dups: "find_duplicates db = pre @ ((pid, oid, sem, yr), g) # post"
    and pre: "\<forall>(k, g)\<in>set pre. admin_positions_to_delete g = []"
    and viol: "admin_positions_to_delete g \<noteq> []"
    and look: "lookups_succeed E db" and del: "dry \<or> deletes_succeed E db"
  shows "\<exists>person org out. person_str E pid = Some person \<and> org_str E oid = Some org \<and>
    process_duplicates E dry db =
      (Some (ValueError (person, org, yr, sem) (length (admin_positions_to_delete g))),
       (if dry then db else filter (\<lambda>q. position_id q \<notin> deleted_ids pre) db),
       out @ [ProcessingGroup (person, org, yr, sem), FoundPositions (length g),
              ErrorAdminPositions (length (admin_positions_to_delete g)), RollingBack])"
proof -
  from dups have mem: "((pid, oid, sem, yr), g) \<in> set (find_duplicates db)" by simp
  then have len: "1 < length g" and g: "g = filter (\<lambda>p. group_key_of p = (pid, oid, sem, yr)) db"
    unfolding find_duplicates_iff by blast+
  from len obtain p where "p \<in> set g" by (cases g) auto
  with g have "p \<in> set db" "group_key_of p = (pid, oid, sem, yr)" by auto
  with look obtain person org where
    names: "person_str E pid = Some person" "org_str E oid = Some org"
    by (auto simp add: lookups_succeed_def group_key_of_def)
  from find_duplicates_prefix_clean [OF dups pre look del]
  have "\<forall>d\<in>set pre. clean_group E dry d" .
  from process_groups_first_violation [OF this len names viol, of sem yr post 0 0 db]
  obtain out where
    "process_groups E dry (find_duplicates db) (0, 0) db =
      (Inl (ValueError (person, org, yr, sem) (length (admin_positions_to_delete g))),
       (if dry then db else filter (\<lambda>q. position_id q \<notin> deleted_ids pre) db),
       out @ [ProcessingGroup (person, org, yr, sem), FoundPositions (length g),
              ErrorAdminPositions (length (admin_positions_to_delete g)), RollingBack])"
    unfolding dups by blast
  moreover from dups have "find_duplicates db \<noteq> []" by simp
  ultimately have "process_duplicates E dry db =
      (Some (ValueError (person, org, yr, sem) (length (admin_positions_to_delete g))),
       (if dry then db else filter (\<lambda>q. position_id q \<notin> deleted_ids pre) db),
       (FoundGroups (length (find_duplicates db)) # out) @
         [ProcessingGroup (person, org, yr, sem), FoundPositions (length g),
          ErrorAdminPositions (length (admin_positions_to_delete g)), RollingBack])"
    by (simp add: process_duplicates_def Let_def)
  with names show ?thesis by blast
qed

lemma process_duplicates_violation_raises:
  assumes "\<exists>(k, g)\<in>set (find_duplicates db). admin_positions_to_delete g \<noteq> []"
  shows "fst (process_duplicates E dry db) \<noteq> None"
proof -
  from assms have ne: "find_duplicates db \<noteq> []" by auto
  from process_groups_violation_raises [OF find_duplicates_length assms, of E dry "(0, 0)" db]
  obtain e db' out where
    "process_groups E dry (find_duplicates db) (0, 0) db = (Inl e, db', out)" by blast
  with ne show ?thesis by (simp add: process_duplicates_def Let_def)
qed

lemma find_filter:
  "find P xs = (case filter P xs of [] \<Rightarrow> None | y # _ \<Rightarrow> Some y)"
  by (induction xs) auto

lemma hd_positions_sorted_min:
  assumes "g \<noteq> []"
  shows "pos (hd (positions_sorted g)) = Min (pos ` set g)"
proof -
  let ?s = "positions_sorted g"
  from assms have ne: "?s \<noteq> []" by simp
  have srt: "sorted (map pos ?s)" by (simp add: positions_sorted_def)
  have "\<forall>x\<in>set ?s. pos (hd ?s) \<le> pos x"
  proof (cases ?s)
    case Nil
    with ne show ?thesis by simp
  next
    case (Cons h t)
    with srt have "sorted (map pos (h # t))" by simp
    then have "\<forall>x\<in>set (h # t). pos h \<le> pos x" by auto
    with Cons show ?thesis by simp
  qed
  then have "\<forall>y\<in>pos ` set g. pos (hd ?s) \<le> y"
    by (simp add: positions_sorted_def)
  moreover from ne have "hd ?s \<in> set ?s" by simp
  then have "pos (hd ?s) \<in> pos ` set g" by (simp add: positions_sorted_def)
  ultimately show ?thesis by (intro Min_eqI [symmetric]) auto
qed

lemma filter_min_positions_sorted:
  assumes "g \<noteq> []"
  shows "\<exists>rest. filter (\<lambda>p. pos p = Min (pos ` set g)) g = hd (positions_sorted g) # rest"
proof -
  let ?s = "positions_sorted g" and ?m = "Min (pos ` set g)"
  from assms obtain h t where ht: "?s = h # t" by (cases ?s) auto
  with hd_positions_sorted_min [OF assms] have "pos h = ?m" by simp
  with ht have "filter (\<lambda>p. pos p = ?m) ?s = hd ?s # filter (\<lambda>p. pos p = ?m) (tl ?s)"
    by simp
  moreover have "filter (\<lambda>p. pos p = ?m) ?s = filter (\<lambda>p. pos p = ?m) g"
    unfolding positions_sorted_def by (rule sort_key_stable)
  ultimately show ?thesis by auto
qed

lemma two_in_list_length:
  assumes "p \<in> set g" and "q \<in> set g" and "p \<noteq> q"
  shows "1 < length g"
proof (cases g)
  case Nil
  with assms show ?thesis by simp
next
  case (Cons a t)
  with assms have "t \<noteq> []" by auto
  with Cons show ?thesis by (cases t) simp_all
qed

lemma delete_each_error:
  "delete_each E ps td db = (Inl e, db') \<Longrightarrow> \<exists>i. e = DeleteError i"
  using delete_each_cases [of E ps td db] by auto

lemma process_group_ValueError_iff:
  assumes "1 < length g"
  shows "(\<exists>gd n. fst (process_group E dry ((pid, oid, sem, yr), g) t db) = Inl (ValueError gd n)) \<longleftrightarrow>
    person_str E pid \<noteq> None \<and> org_str E oid \<noteq> None \<and> admin_positions_to_delete g \<noteq> []"
proof -
  from assms have ne: "g \<noteq> []" by auto
  obtain tm td where t: "t = (tm, td)" by (cases t) auto
  obtain r db' where d: "delete_each E (delete_positions g) td db = (r, db')"
    by (cases "delete_each E (delete_positions g) td db") auto
  have "\<And>e. r = Inl e \<Longrightarrow> \<exists>i. e = DeleteError i"
    using d delete_each_error by blast
  with assms ne t d show ?thesis
    by (cases r) (auto simp add: process_group_def Let_def keep_position_Inr split: option.splits)
qed

lemma process_groups_stops:
  assumes "process_groups E dry pre t db = (Inr t', db', out1)"
    and "fst (process_group E dry d t' db') = Inl e"
  shows "process_groups E dry (pre @ d # post) t db = process_groups E dry (pre @ [d]) t db"
proof -
  obtain db'' out2 where "process_group E dry d t' db' = (Inl e, db'', out2)"
    using assms(2) by (cases "process_group E dry d t' db'") auto
  with assms(1) show ?thesis by (simp add: process_groups_append)
qed

lemma deleted_positions_not_admin:
  assumes "\<forall>(k, g)\<in>set ds. admin_positions_to_delete g = []"
    and "(k, g) \<in> set ds" and "q \<in> set (delete_positions g)"
  shows "\<not> is_admin q"
proof -
  from assms(1,2) have "filter is_admin (delete_positions g) = []"
    by (auto simp add: admin_positions_to_delete_def delete_positions_def)
  with assms(3) show ?thesis by (simp add: filter_empty_conv)
qed

lemma admin_survives_filter:
  assumes dist: "distinct (map position_id db)"
    and clean: "\<forall>(k, g)\<in>set (find_duplicates db). admin_positions_to_delete g = []"
    and p: "p \<in> set db" and adm: "is_admin p"
  shows "p \<in> set (filter (\<lambda>q. position_id q \<notin> deleted_ids (find_duplicates db)) db)"
proof -
  have "position_id p \<notin> deleted_ids (find_duplicates db)"
  proof
    assume "position_id p \<in> deleted_ids (find_duplicates db)"
    then obtain k g q where kg: "(k, g) \<in> set (find_duplicates db)"
      and q: "q \<in> set (delete_positions g)" and id: "position_id q = position_id p"
      by (auto simp add: deleted_ids_def)
    from kg have "set g \<subseteq> set db" by (auto simp add: find_duplicates_iff)
    with q set_delete_positions [of g] have "q \<in> set db" by blast
    with dist p id have "q = p" by (meson distinct_map inj_onD)
    with deleted_positions_not_admin [OF clean kg q] adm show False by simp
  qed
  with p show ?thesis by simp
qed

lemma process_group_no_summary:
  "process_group E dry g t db = (r, db', out) \<Longrightarrow> \<forall>e\<in>set out. \<forall>m d. e \<noteq> SuccessSummary m d"
  by (cases g; cases t)
     (auto simp add: process_group_def Let_def split: option.splits sum.splits prod.splits if_splits)

lemma process_groups_no_summary:
  "process_groups E dry ds t db = (r, db', out) \<Longrightarrow> \<forall>e\<in>set out. \<forall>m d. e \<noteq> SuccessSummary m d"
proof (induction ds arbitrary: t db out)
  case Nil
  then show ?case by simp
next
  case (Cons d ds)
  obtain r1 db1 out1 where step: "process_group E dry d t db = (r1, db1, out1)"
    by (cases "process_group E dry d t db") auto
  note s1 = process_group_no_summary [OF step]
  show ?case
  proof (cases r1)
    case (Inl e)
    with step Cons.prems s1 show ?thesis by simp
  next
    case (Inr t1)
    with step Cons.prems obtain out2 where
      rest: "process_groups E dry ds t1 db1 = (r, db', out2)" and out: "out = out1 @ out2"
      by (auto split: prod.splits)
    from Cons.IH [OF rest] s1 out show ?thesis by auto
  qed
qed

lemma map_dry_run_line_id:
  "\<forall>e\<in>set out. \<forall>m d. e \<noteq> SuccessSummary m d \<Longrightarrow> map dry_run_line out = out"
proof (induction out)
  case Nil
  show ?case by simp
next
  case (Cons e out)
  then have "dry_run_line e = e" by (cases e) simp_all
  with Cons show ?case by simp
qed

lemma process_duplicates_parity:
  assumes "process_duplicates E False db = (r, db', out)"
    and "\<forall>i. r \<noteq> Some (DeleteError i)"
  shows "process_duplicates E True db = (r, db, map dry_run_line out)"
proof -
  from process_duplicates_cases [OF assms(1)]
  consider "find_duplicates db = []" "r = None" "out = [NoDuplicatesFound]"
    | e out1 where "find_duplicates db \<noteq> []"
      "process_groups E False (find_duplicates db) (0, 0) db = (Inl e, db', out1)"
      "r = Some e" "out = FoundGroups (length (find_duplicates db)) # out1"
    | tm td out1 where "find_duplicates db \<noteq> []"
      "process_groups E False (find_duplicates db) (0, 0) db = (Inr (tm, td), db', out1)"
      "r = None" "out = FoundGroups (length (find_duplicates db)) # out1 @ [SuccessSummary tm td]"
    by auto
  then show ?thesis
  proof cases
    case 1
    then show ?thesis by (simp add: process_duplicates_def)
  next
    case 2
    from 2(3) assms(2) have "\<forall>i. Inl e \<noteq> (Inl (DeleteError i) :: error + nat \<times> nat)" by simp
    from process_groups_parity [OF 2(2) this, of db]
    have dry: "process_groups E True (find_duplicates db) (0, 0) db = (Inl e, db, out1)" .
    from process_groups_no_summary [OF 2(2)] have "map dry_run_line out1 = out1"
      by (rule map_dry_run_line_id)
    with dry 2 show ?thesis by (simp add: process_duplicates_def Let_def)
  next
    case 3
    have "\<forall>i. Inr (tm, td) \<noteq> (Inl (DeleteError i) :: error + nat \<times> nat)" by simp
    from process_groups_parity [OF 3(2) this, of db]
    have dry: "process_groups E True (find_duplicates db) (0, 0) db = (Inr (tm, td), db, out1)" .
    from process_groups_no_summary [OF 3(2)] have "map dry_run_line out1 = out1"
      by (rule map_dry_run_line_id)
    with dry 3 show ?thesis by (simp add: process_duplicates_def Let_def)
  qed
qed

lemma distinct_map_filter_length:
  "distinct (map f xs) \<longleftrightarrow> (\<forall>k. length (filter (\<lambda>x. f x = k) xs) \<le> 1)"
proof (induction xs)
  case Nil
  show ?case by simp
next
  case (Cons x xs)
  show ?case
  proof
    assume d: "distinct (map f (x # xs))"
    then have "f x \<notin> f ` set xs" and "distinct (map f xs)" by simp_all
    then have nil: "filter (\<lambda>y. f y = f x) xs = []" and
      le: "\<forall>k. length (filter (\<lambda>x. f x = k) xs) \<le> 1"
      using Cons.IH unfolding filter_empty_conv by (metis imageI, simp)
    show "\<forall>k. length (filter (\<lambda>y. f y = k) (x # xs)) \<le> 1"
    proof
      fix k show "length (filter (\<lambda>y. f y = k) (x # xs)) \<le> 1"
        using nil le by (cases "f x = k") auto
    qed
  next
    assume a: "\<forall>k. length (filter (\<lambda>y. f y = k) (x # xs)) \<le> 1"
    have "\<forall>k. length (filter (\<lambda>y. f y = k) xs) \<le> 1"
    proof
      fix k
      from a have "length (filter (\<lambda>y. f y = k) (x # xs)) \<le> 1" by blast
      then show "length (filter (\<lambda>y. f y = k) xs) \<le> 1" by (cases "f x = k") simp_all
    qed
    with Cons.IH have "distinct (map f xs)" by simp
    moreover have "f x \<notin> f ` set xs"
    proof
      assume "f x \<in> f ` set xs"
      then obtain y where "y \<in> set xs" "f y = f x" by auto
      then have "filter (\<lambda>y. f y = f x) xs \<noteq> []" by (auto simp add: filter_empty_conv)
      then have "0 < length (filter (\<lambda>y. f y = f x) xs)" by simp
      moreover from a have "length (filter (\<lambda>y. f y = f x) (x # xs)) \<le> 1" by blast
      ultimately show False by simp
    qed
    ultimately show "distinct (map f (x # xs))" by simp
  qed
qed

lemma find_duplicates_Nil_iff:
  "find_duplicates db = [] \<longleftrightarrow> distinct (map group_key_of db)"
proof
  assume e: "find_duplicates db = []"
  have "\<forall>k. length (filter (\<lambda>p. group_key_of p = k) db) \<le> 1"
  proof
    fix k
    have "(k, filter (\<lambda>p. group_key_of p = k) db) \<notin> set (find_duplicates db)"
      using e by simp
    then show "length (filter (\<lambda>p. group_key_of p = k) db) \<le> 1"
      by (simp add: find_duplicates_iff)
  qed
  then show "distinct (map group_key_of db)" by (simp add: distinct_map_filter_length)
next
  assume "distinct (map group_key_of db)"
  then have le: "\<forall>k. length (filter (\<lambda>p. group_key_of p = k) db) \<le> 1"
    by (simp add: distinct_map_filter_length)
  show "find_duplicates db = []"
  proof (rule ccontr)
    assume ne: "find_duplicates db \<noteq> []"
    let ?d = "hd (find_duplicates db)"
    from ne have "?d \<in> set (find_duplicates db)" by simp
    then have "(fst ?d, snd ?d) \<in> set (find_duplicates db)" by simp
    then have "1 < length (filter (\<lambda>p. group_key_of p = fst ?d) db)"
      unfolding find_duplicates_iff by metis
    with le show False by (metis not_less)
  qed
qed

lemma length_filter_mset_eq:
  "mset xs = mset ys \<Longrightarrow> length (filter P xs) = length (filter P ys)"
  by (metis mset_filter size_mset)

lemma distinct_keys_after_merge:
  "distinct (map group_key_of
     (filter (\<lambda>q. position_id q \<notin> deleted_ids (find_duplicates db)) db))"
proof -
  let ?P = "\<lambda>q. position_id q \<notin> deleted_ids (find_duplicates db)"
  have "\<forall>k. length (filter (\<lambda>p. group_key_of p = k) (filter ?P db)) \<le> 1"
  proof
    fix k
    let ?g = "filter (\<lambda>p. group_key_of p = k) db"
    have comm: "filter (\<lambda>p. group_key_of p = k) (filter ?P db) = filter ?P ?g"
      by (simp add: conj_commute)
    show "length (filter (\<lambda>p. group_key_of p = k) (filter ?P db)) \<le> 1"
    proof (cases "1 < length ?g")
      case False
      have "length (filter ?P ?g) \<le> length ?g" by (rule length_filter_le)
      with False comm show ?thesis by simp
    next
      case True
      then have mem: "(k, ?g) \<in> set (find_duplicates db)" by (simp add: find_duplicates_iff)
      from True have ne: "?g \<noteq> []" by auto
      have "\<forall>q\<in>set (delete_positions ?g). \<not> ?P q"
      proof
        fix q assume "q \<in> set (delete_positions ?g)"
        with mem have "q \<in> (\<Union>(k, g)\<in>set (find_duplicates db). set (delete_positions g))"
          by blast
        then show "\<not> ?P q" unfolding deleted_ids_def by simp
      qed
      then have nil: "filter ?P (delete_positions ?g) = []" by (simp add: filter_empty_conv)
      have "mset (positions_sorted ?g) = mset ?g" by (simp add: positions_sorted_def)
      then have "length (filter ?P ?g) = length (filter ?P (positions_sorted ?g))"
        by (rule length_filter_mset_eq [symmetric])
      also have "\<dots> = length (filter ?P (hd (positions_sorted ?g) # delete_positions ?g))"
        using positions_sorted_Cons [OF ne] by simp
      also have "\<dots> \<le> 1" using nil by simp
      finally show ?thesis using comm by simp
    qed
  qed
  then show ?thesis by (simp add: distinct_map_filter_length)
qed

section \<open>The claims\<close>

text \<open>
  Claim C10. In every run that ends without an exception, in either mode, the summary
  line reports as groups merged the number of duplicate groups, and as records deleted
  the sum over the duplicate groups of the group size minus one. (With no duplicate
  group the command writes no summary line but \<open>NoDuplicatesFound\<close>.)
\<close>

theorem summary_counts:
  assumes "fst (handle E dry_run db) = None" and "find_duplicates db \<noteq> []"
  shows "last (snd (snd (handle E dry_run db))) =
    (if dry_run
     then DryRunSummary (length (find_duplicates db))
            (sum_list (map (\<lambda>(k, g). length g - 1) (find_duplicates db)))
     else SuccessSummary (length (find_duplicates db))
            (sum_list (map (\<lambda>(k, g). length g - 1) (find_duplicates db))))"
proof -
  obtain r db' out where pd: "process_duplicates E dry_run db = (r, db', out)"
    by (cases "process_duplicates E dry_run db") auto
  with assms(1) have "r = None"
    by (cases dry_run) (simp_all add: handle_dry handle_mutating)
  with pd process_duplicates_None [of E dry_run db db' out] assms(2)
  obtain out1 where "out = FoundGroups (length (find_duplicates db)) # out1 @
       [if dry_run
        then DryRunSummary (length (find_duplicates db)) (sum_list (map (\<lambda>(k, g). length g - 1) (find_duplicates db)))
        else SuccessSummary (length (find_duplicates db)) (sum_list (map (\<lambda>(k, g). length g - 1) (find_duplicates db)))]"
    by auto
  with pd show ?thesis
    by (cases dry_run) (simp_all add: handle_dry handle_mutating)
qed

theorem summary_counts_witness:
  "fst (handle example_env False db_two) = None \<and> find_duplicates db_two \<noteq> [] \<and>
   last (snd (snd (handle example_env False db_two))) = SuccessSummary 2 3 \<and>
   fst (handle example_env True db_two) = None \<and>
   last (snd (snd (handle example_env True db_two))) = DryRunSummary 2 3"
proof -
  have h1: "fst (handle example_env False db_two) = None" by code_simp
  have h2: "find_duplicates db_two \<noteq> []" by code_simp
  have h3: "fst (handle example_env True db_two) = None" by code_simp
  have e1: "length (find_duplicates db_two) = 2" by code_simp
  have e2: "sum_list (map (\<lambda>(k, g). length g - 1) (find_duplicates db_two)) = 3" by code_simp
  from summary_counts [OF h1 h2, unfolded e1 e2] summary_counts [OF h3 h2, unfolded e1 e2]
    h1 h2 h3
  show ?thesis by simp
qed

text \<open>
  Claim C5. \<open>find_duplicates\<close> returns a dictionary (no key twice) in which every entry
  holds exactly the positions of the table with that key, in the order of the table, and
  holds more than one position. So two different rows of the table are in one returned
  group if and only if they agree on person, organization, semester and year, and no
  group of size one is returned.
\<close>

theorem find_duplicates_grouping:
  "distinct (map fst (find_duplicates db)) \<and>
   (\<forall>(k, g)\<in>set (find_duplicates db).
      1 < length g \<and> g = filter (\<lambda>p. group_key_of p = k) db) \<and>
   (\<forall>p\<in>set db. \<forall>q\<in>set db. p \<noteq> q \<longrightarrow>
      ((\<exists>(k, g)\<in>set (find_duplicates db). p \<in> set g \<and> q \<in> set g) \<longleftrightarrow>
       person_id p = person_id q \<and> org_id p = org_id q \<and>
       semester p = semester q \<and> year p = year q))"
proof (intro conjI ballI impI)
  show "distinct (map fst (find_duplicates db))" by (rule distinct_find_duplicates)
next
  fix d assume d: "d \<in> set (find_duplicates db)"
  obtain k g where kg: "d = (k, g)" by (cases d) auto
  with d have "(k, g) \<in> set (find_duplicates db)" by simp
  then have "1 < length g \<and> g = filter (\<lambda>p. group_key_of p = k) db"
    unfolding find_duplicates_iff .
  then show "case d of (k, g) \<Rightarrow> 1 < length g \<and> g = filter (\<lambda>p. group_key_of p = k) db"
    unfolding kg prod.case .
next
  fix p q assume p: "p \<in> set db" and q: "q \<in> set db" and ne: "p \<noteq> q"
  have "(\<exists>(k, g)\<in>set (find_duplicates db). p \<in> set g \<and> q \<in> set g) \<longleftrightarrow>
    group_key_of p = group_key_of q"
  proof
    assume "\<exists>(k, g)\<in>set (find_duplicates db). p \<in> set g \<and> q \<in> set g"
    then obtain k g where "(k, g) \<in> set (find_duplicates db)" "p \<in> set g" "q \<in> set g"
      by auto
    then show "group_key_of p = group_key_of q"
      by (auto simp add: find_duplicates_iff)
  next
    assume eq: "group_key_of p = group_key_of q"
    let ?g = "filter (\<lambda>r. group_key_of r = group_key_of p) db"
    from p q eq have mem: "p \<in> set ?g" "q \<in> set ?g" by simp_all
    from mem ne have "1 < length ?g" by (rule two_in_list_length)
    then have "(group_key_of p, ?g) \<in> set (find_duplicates db)"
      by (simp add: find_duplicates_iff)
    with mem show "\<exists>(k, g)\<in>set (find_duplicates db). p \<in> set g \<and> q \<in> set g"
      by blast
  qed
  then show "(\<exists>(k, g)\<in>set (find_duplicates db). p \<in> set g \<and> q \<in> set g) \<longleftrightarrow>
       person_id p = person_id q \<and> org_id p = org_id q \<and>
       semester p = semester q \<and> year p = year q"
    by (simp add: group_key_of_def)
qed

theorem find_duplicates_grouping_witness:
  "mk_position 1 1 3 False \<in> set db_two \<and> mk_position 2 1 1 False \<in> set db_two \<and>
   mk_position 4 2 1 False \<in> set db_two \<and>
   (\<exists>(k, g)\<in>set (find_duplicates db_two).
      mk_position 1 1 3 False \<in> set g \<and> mk_position 2 1 1 False \<in> set g) \<and>
   \<not> (\<exists>(k, g)\<in>set (find_duplicates db_two).
      mk_position 1 1 3 False \<in> set g \<and> mk_position 4 2 1 False \<in> set g)"
proof -
  let ?p = "mk_position 1 1 3 False" and ?q = "mk_position 2 1 1 False"
    and ?r = "mk_position 4 2 1 False"
  have mem: "?p \<in> set db_two" "?q \<in> set db_two" "?r \<in> set db_two"
    by (simp_all add: db_two_def)
  have ne: "?p \<noteq> ?q" "?p \<noteq> ?r" by (simp_all add: mk_position_def)
  have keys: "person_id ?p = person_id ?q \<and> org_id ?p = org_id ?q \<and>
      semester ?p = semester ?q \<and> year ?p = year ?q"
    "\<not> (person_id ?p = person_id ?r \<and> org_id ?p = org_id ?r \<and>
      semester ?p = semester ?r \<and> year ?p = year ?r)"
    by (simp_all add: mk_position_def)
  from find_duplicates_grouping [of db_two] have
    "\<forall>p\<in>set db_two. \<forall>q\<in>set db_two. p \<noteq> q \<longrightarrow>
      ((\<exists>(k, g)\<in>set (find_duplicates db_two). p \<in> set g \<and> q \<in> set g) \<longleftrightarrow>
       person_id p = person_id q \<and> org_id p = org_id q \<and>
       semester p = semester q \<and> year p = year q)"
    by blast
  with mem ne keys show ?thesis by blast
qed

text \<open>
  Claim C9. The position kept in a duplicate group is the first position of the table,
  in the order it was enumerated, that has the group's key and the least \<open>pos\<close> of the
  group: the sort is stable and compares \<open>pos\<close> only. So of two positions with equal
  \<open>pos\<close> the one enumerated first is kept, whichever it is.
\<close>

theorem stable_sort_survivor:
  "((k, g) \<in> set (find_duplicates db) \<longrightarrow>
      (\<exists>s. keep_position g = Inr s \<and>
         find (\<lambda>p. group_key_of p = k \<and> pos p = Min (pos ` set g)) db = Some s)) \<and>
   (pos a = pos b \<longrightarrow> keep_position [a, b] = Inr a \<and> keep_position [b, a] = Inr b)"
proof (intro conjI impI)
  assume "(k, g) \<in> set (find_duplicates db)"
  then have len: "1 < length g" and g: "g = filter (\<lambda>p. group_key_of p = k) db"
    unfolding find_duplicates_iff by blast+
  from len have ne: "g \<noteq> []" by auto
  define m where "m = Min (pos ` set g)"
  from filter_min_positions_sorted [OF ne] obtain rest where
    "filter (\<lambda>p. pos p = m) g = hd (positions_sorted g) # rest"
    unfolding m_def by blast
  moreover have "filter (\<lambda>p. pos p = m) g = filter (\<lambda>p. group_key_of p = k \<and> pos p = m) db"
    by (subst g) (simp add: conj_commute)
  ultimately have "find (\<lambda>p. group_key_of p = k \<and> pos p = m) db =
      Some (hd (positions_sorted g))"
    by (simp add: find_filter)
  then have "find (\<lambda>p. group_key_of p = k \<and> pos p = Min (pos ` set g)) db =
      Some (hd (positions_sorted g))"
    unfolding m_def .
  with keep_position_Inr [OF ne]
  show "\<exists>s. keep_position g = Inr s \<and>
         find (\<lambda>p. group_key_of p = k \<and> pos p = Min (pos ` set g)) db = Some s"
    by blast
next
  assume "pos a = pos b"
  then show "keep_position [a, b] = Inr a" "keep_position [b, a] = Inr b"
    by (simp_all add: keep_position_def positions_sorted_def)
qed

theorem stable_sort_survivor_witness:
  "((1, 7, ''Fall'', 2024), [mk_position 9 1 1 False, mk_position 8 1 1 False])
     \<in> set (find_duplicates db_tie) \<and>
   keep_position [mk_position 9 1 1 False, mk_position 8 1 1 False] = Inr (mk_position 9 1 1 False) \<and>
   find (\<lambda>p. group_key_of p = (1, 7, ''Fall'', 2024) \<and>
           pos p = Min (pos ` set [mk_position 9 1 1 False, mk_position 8 1 1 False])) db_tie =
     Some (mk_position 9 1 1 False) \<and>
   pos (mk_position 9 1 1 False) = pos (mk_position 8 1 1 False) \<and>
   keep_position [mk_position 8 1 1 False, mk_position 9 1 1 False] = Inr (mk_position 8 1 1 False)"
proof -
  let ?a = "mk_position 9 1 1 False" and ?b = "mk_position 8 1 1 False"
  have h: "((1, 7, ''Fall'', 2024), [?a, ?b]) \<in> set (find_duplicates db_tie)" by code_simp
  have t: "pos ?a = pos ?b" by (simp add: mk_position_def)
  from stable_sort_survivor [of "(1, 7, ''Fall'', 2024)" "[?a, ?b]" db_tie ?a ?b] h t
  have "(\<exists>s. keep_position [?a, ?b] = Inr s \<and>
         find (\<lambda>p. group_key_of p = (1, 7, ''Fall'', 2024) \<and> pos p = Min (pos ` set [?a, ?b]))
           db_tie = Some s) \<and>
     keep_position [?a, ?b] = Inr ?a \<and> keep_position [?b, ?a] = Inr ?b"
    by blast
  with h t show ?thesis by auto
qed

text \<open>
  Claim C2, as amended. In every duplicate group the position kept has the least
  \<open>pos\<close> of the group, and among the positions with that least \<open>pos\<close> it is the one
  enumerated first (every position before it in the group has a strictly greater
  \<open>pos\<close>). The position kept is a function of the enumerated table, so running again on
  the same table in the same order keeps the same position. The id plays no part.
\<close>

theorem survivor_first_minimum:
  assumes "(k, g) \<in> set (find_duplicates db)"
  shows "\<exists>s xs ys. keep_position g = Inr s \<and> g = xs @ s # ys \<and>
    (\<forall>q\<in>set xs. pos s < pos q) \<and> (\<forall>q\<in>set ys. pos s \<le> pos q)"
proof -
  from assms have len: "1 < length g" unfolding find_duplicates_iff by blast
  then have ne: "g \<noteq> []" by auto
  let ?s = "hd (positions_sorted g)" and ?m = "Min (pos ` set g)"
  from filter_min_positions_sorted [OF ne] obtain rest where
    "filter (\<lambda>p. pos p = ?m) g = ?s # rest" by blast
  then obtain xs ys where split: "g = xs @ ?s # ys" and xs: "\<forall>q\<in>set xs. pos q \<noteq> ?m"
    unfolding filter_eq_Cons_iff by blast
  have m: "pos ?s = ?m" by (rule hd_positions_sorted_min [OF ne])
  have le: "\<forall>q\<in>set g. ?m \<le> pos q" by simp
  from split have "set xs \<subseteq> set g" "set ys \<subseteq> set g" by (metis set_append Un_upper1, metis set_append set_subset_Cons Un_upper2 subset_trans)
  with le xs m have "\<forall>q\<in>set xs. pos ?s < pos q" "\<forall>q\<in>set ys. pos ?s \<le> pos q"
    by (auto simp add: subset_iff order_less_le)
  with keep_position_Inr [OF ne] split show ?thesis by blast
qed

theorem survivor_first_minimum_witness:
  "((1, 7, ''Fall'', 2024),
      [mk_position 1 1 3 False, mk_position 2 1 1 False, mk_position 3 1 2 False])
     \<in> set (find_duplicates db_two) \<and>
   (\<exists>s xs ys.
      keep_position [mk_position 1 1 3 False, mk_position 2 1 1 False, mk_position 3 1 2 False]
        = Inr s \<and>
      [mk_position 1 1 3 False, mk_position 2 1 1 False, mk_position 3 1 2 False] = xs @ s # ys \<and>
      (\<forall>q\<in>set xs. pos s < pos q) \<and> (\<forall>q\<in>set ys. pos s \<le> pos q))"
proof -
  have h: "((1, 7, ''Fall'', 2024),
      [mk_position 1 1 3 False, mk_position 2 1 1 False, mk_position 3 1 2 False])
     \<in> set (find_duplicates db_two)" by code_simp
  from survivor_first_minimum [OF h] h show ?thesis by blast
qed

text \<open>
  The claim C2 as stated (on a tie the least id is kept) fails: with two positions of one
  group, both with \<open>pos = 1\<close>, enumerated as id 9 then id 8, the command keeps id 9 and
  deletes id 8.
\<close>

theorem min_id_tie_break_counterexample:
  "((1, 7, ''Fall'', 2024), [mk_position 9 1 1 False, mk_position 8 1 1 False])
     \<in> set (find_duplicates db_tie) \<and>
   keep_position [mk_position 9 1 1 False, mk_position 8 1 1 False] = Inr (mk_position 9 1 1 False) \<and>
   pos (mk_position 8 1 1 False) = pos (mk_position 9 1 1 False) \<and>
   position_id (mk_position 8 1 1 False) < position_id (mk_position 9 1 1 False) \<and>
   handle example_env False db_tie =
     (None, [mk_position 9 1 1 False],
      [FoundGroups 1, ProcessingGroup (''Li'', ''Chess Club'', 2024, ''Fall''), FoundPositions 2,
       Keeping 9 1, Deleting 1, SuccessSummary 1 1])"
  by code_simp

text \<open>
  Claim C8. The admin check reads the positions to delete only, never the position
  kept: a group whose kept position is an admin position and whose other positions are
  not raises no \<open>ValueError\<close>; and when the lookups succeed, a group raises
  \<open>ValueError\<close> if and only if one of the positions to delete is an admin position.
\<close>

theorem admin_survivor_is_legal:
  "(1 < length g \<and> keep_position g = Inr s \<and> is_admin s \<and>
      (\<forall>q\<in>set (delete_positions g). \<not> is_admin q) \<longrightarrow>
    (\<forall>gd n. fst (process_group E dry_run (k, g) totals db) \<noteq> Inl (ValueError gd n))) \<and>
   (1 < length g \<and> person_str E pid \<noteq> None \<and> org_str E oid \<noteq> None \<longrightarrow>
    ((\<exists>gd n. fst (process_group E dry_run ((pid, oid, sem, yr), g) totals db) =
        Inl (ValueError gd n)) \<longleftrightarrow>
     (\<exists>q\<in>set (delete_positions g). is_admin q)))"
proof (intro conjI impI)
  assume a: "1 < length g \<and> keep_position g = Inr s \<and> is_admin s \<and>
      (\<forall>q\<in>set (delete_positions g). \<not> is_admin q)"
  then have "admin_positions_to_delete g = []"
    by (simp add: admin_positions_to_delete_def delete_positions_def filter_empty_conv)
  moreover obtain pid' oid' sem' yr' where "k = (pid', oid', sem', yr')" by (cases k) auto
  ultimately show "\<forall>gd n. fst (process_group E dry_run (k, g) totals db) \<noteq> Inl (ValueError gd n)"
    using process_group_ValueError_iff [of g E dry_run pid' oid' sem' yr' totals db] a by blast
next
  assume a: "1 < length g \<and> person_str E pid \<noteq> None \<and> org_str E oid \<noteq> None"
  have "admin_positions_to_delete g \<noteq> [] \<longleftrightarrow> (\<exists>q\<in>set (delete_positions g). is_admin q)"
    by (simp add: admin_positions_to_delete_def delete_positions_def filter_empty_conv)
  with a process_group_ValueError_iff [of g E dry_run pid oid sem yr totals db]
  show "(\<exists>gd n. fst (process_group E dry_run ((pid, oid, sem, yr), g) totals db) =
        Inl (ValueError gd n)) \<longleftrightarrow> (\<exists>q\<in>set (delete_positions g). is_admin q)"
    by blast
qed

theorem admin_survivor_is_legal_witness:
  "1 < length db_admin_first \<and>
   keep_position db_admin_first = Inr (mk_position 7 1 0 True) \<and>
   is_admin (mk_position 7 1 0 True) \<and>
   \<not> (\<exists>q\<in>set (delete_positions db_admin_first). is_admin q) \<and>
   person_str example_env 1 \<noteq> None \<and> org_str example_env 7 \<noteq> None \<and>
   \<not> (\<exists>gd n. fst (process_group example_env False ((1, 7, ''Fall'', 2024), db_admin_first)
                   (0, 0) db_admin_first) = Inl (ValueError gd n)) \<and>
   handle example_env False db_admin_first =
     (None, [mk_position 7 1 0 True],
      [FoundGroups 1, ProcessingGroup (''Li'', ''Chess Club'', 2024, ''Fall''), FoundPositions 2,
       Keeping 7 0, Deleting 1, SuccessSummary 1 1])"
proof -
  let ?s = "mk_position 7 1 0 True"
  have h1: "1 < length db_admin_first \<and> keep_position db_admin_first = Inr ?s \<and> is_admin ?s \<and>
      (\<forall>q\<in>set (delete_positions db_admin_first). \<not> is_admin q)"
    by code_simp
  have h2: "1 < length db_admin_first \<and> person_str example_env 1 \<noteq> None \<and>
      org_str example_env 7 \<noteq> None"
    by code_simp
  have run: "handle example_env False db_admin_first =
     (None, [mk_position 7 1 0 True],
      [FoundGroups 1, ProcessingGroup (''Li'', ''Chess Club'', 2024, ''Fall''), FoundPositions 2,
       Keeping 7 0, Deleting 1, SuccessSummary 1 1])"
    by code_simp
  from admin_survivor_is_legal [of db_admin_first ?s example_env False
      "(1, 7, ''Fall'', 2024)" "(0, 0)" db_admin_first 1 7 "''Fall''" 2024] h1
  have "\<forall>gd n. fst (process_group example_env False ((1, 7, ''Fall'', 2024), db_admin_first)
      (0, 0) db_admin_first) \<noteq> Inl (ValueError gd n)"
    by blast
  with h1 h2 run show ?thesis by blast
qed

text \<open>
  Claim C1. No admin position is ever deleted, in either mode: in a table whose ids are
  distinct (\<open>id\<close> is the primary key) every admin position of the table is still there
  after the run. And if in any duplicate group one of the positions to delete is an admin
  position, the run ends in an exception and the table after the run is the table before
  it; when the store itself does not fail (lookups and deletions succeed) that exception
  is the \<open>ValueError\<close> of line 78, with a positive count.
\<close>

theorem admin_positions_never_deleted:
  "(distinct (map position_id db) \<longrightarrow>
      (\<forall>p\<in>set db. is_admin p \<longrightarrow> p \<in> set (fst (snd (handle E dry_run db))))) \<and>
   ((\<exists>(k, g)\<in>set (find_duplicates db). admin_positions_to_delete g \<noteq> []) \<longrightarrow>
      fst (handle E dry_run db) \<noteq> None \<and> fst (snd (handle E dry_run db)) = db \<and>
      (lookups_succeed E db \<and> deletes_succeed E db \<longrightarrow>
         (\<exists>gd n. 0 < n \<and> fst (handle E dry_run db) = Some (ValueError gd n))))"
proof (intro conjI impI ballI)
  fix p assume dist: "distinct (map position_id db)" and p: "p \<in> set db" and adm: "is_admin p"
  show "p \<in> set (fst (snd (handle E dry_run db)))"
  proof (cases dry_run)
    case True
    with p show ?thesis by (simp add: handle_dry)
  next
    case False
    obtain r db' out where pd: "process_duplicates E False db = (r, db', out)"
      by (cases "process_duplicates E False db") auto
    show ?thesis
    proof (cases r)
      case (Some e)
      with pd False p show ?thesis by (simp add: handle_mutating)
    next
      case None
      with pd process_duplicates_None [of E False db db' out]
      consider "db' = db"
        | "\<forall>(k, g)\<in>set (find_duplicates db). admin_positions_to_delete g = []"
          "db' = filter (\<lambda>q. position_id q \<notin> deleted_ids (find_duplicates db)) db"
        by auto
      then have "p \<in> set db'"
      proof cases
        case 1
        with p show ?thesis by simp
      next
        case 2
        from admin_survives_filter [OF dist 2(1) p adm] 2(2) show ?thesis by simp
      qed
      with pd None False show ?thesis by (simp add: handle_mutating)
    qed
  qed
next
  assume v: "\<exists>(k, g)\<in>set (find_duplicates db). admin_positions_to_delete g \<noteq> []"
  from process_duplicates_violation_raises [OF v, of E dry_run]
  have r: "fst (process_duplicates E dry_run db) \<noteq> None" .
  then show "fst (handle E dry_run db) \<noteq> None"
    by (cases dry_run) (simp_all add: handle_dry handle_mutating)
  from r show "fst (snd (handle E dry_run db)) = db"
    by (cases dry_run) (auto simp add: handle_dry handle_mutating)
next
  assume v: "\<exists>(k, g)\<in>set (find_duplicates db). admin_positions_to_delete g \<noteq> []"
    and ok: "lookups_succeed E db \<and> deletes_succeed E db"
  from v have "\<exists>d\<in>set (find_duplicates db). admin_positions_to_delete (snd d) \<noteq> []"
    by (metis (mono_tags, lifting) case_prodE snd_conv)
  from split_list_first_prop [OF this] obtain pre d post where
    split: "find_duplicates db = pre @ d # post" and d: "admin_positions_to_delete (snd d) \<noteq> []"
    and pre: "\<forall>d'\<in>set pre. \<not> admin_positions_to_delete (snd d') \<noteq> []"
    by blast
  obtain pid oid sem yr g where dd: "d = ((pid, oid, sem, yr), g)" by (cases d) auto
  from pre have pre': "\<forall>(k', g')\<in>set pre. admin_positions_to_delete g' = []" by auto
  from ok have "dry_run \<or> deletes_succeed E db" by simp
  from handle_first_violation [OF split [unfolded dd] pre' _ _ this] d dd ok
  obtain person org out where
    pd: "process_duplicates E dry_run db =
      (Some (ValueError (person, org, yr, sem) (length (admin_positions_to_delete g))),
       (if dry_run then db else filter (\<lambda>q. position_id q \<notin> deleted_ids pre) db),
       out @ [ProcessingGroup (person, org, yr, sem), FoundPositions (length g),
              ErrorAdminPositions (length (admin_positions_to_delete g)), RollingBack])"
    by auto
  from d dd have "0 < length (admin_positions_to_delete g)" by simp
  moreover from pd have "fst (handle E dry_run db) =
      Some (ValueError (person, org, yr, sem) (length (admin_positions_to_delete g)))"
    by (cases dry_run) (simp_all add: handle_dry handle_mutating)
  ultimately show "\<exists>gd n. 0 < n \<and> fst (handle E dry_run db) = Some (ValueError gd n)"
    by blast
qed

theorem admin_positions_never_deleted_witness:
  "distinct (map position_id db_violation) \<and>
   mk_position 3 1 2 True \<in> set db_violation \<and> is_admin (mk_position 3 1 2 True) \<and>
   mk_position 3 1 2 True \<in> set (fst (snd (handle example_env False db_violation))) \<and>
   (\<exists>(k, g)\<in>set (find_duplicates db_violation). admin_positions_to_delete g \<noteq> []) \<and>
   fst (handle example_env False db_violation) \<noteq> None \<and>
   fst (snd (handle example_env False db_violation)) = db_violation \<and>
   lookups_succeed example_env db_violation \<and> deletes_succeed example_env db_violation \<and>
   (\<exists>gd n. 0 < n \<and> fst (handle example_env False db_violation) = Some (ValueError gd n)) \<and>
   distinct (map position_id db_admin_first) \<and>
   mk_position 7 1 0 True \<in> set db_admin_first \<and> is_admin (mk_position 7 1 0 True) \<and>
   fst (handle example_env False db_admin_first) = None \<and>
   mk_position 7 1 0 True \<in> set (fst (snd (handle example_env False db_admin_first)))"
proof -
  have h1: "distinct (map position_id db_violation)" by code_simp
  have h2: "mk_position 3 1 2 True \<in> set db_violation" by code_simp
  have h3: "is_admin (mk_position 3 1 2 True)" by code_simp
  have h4: "\<exists>(k, g)\<in>set (find_duplicates db_violation). admin_positions_to_delete g \<noteq> []"
    by code_simp
  have h5: "lookups_succeed example_env db_violation" by code_simp
  have h6: "deletes_succeed example_env db_violation" by code_simp
  note t = admin_positions_never_deleted [of db_violation example_env False]
  from t h1 h2 h3
  have c1: "mk_position 3 1 2 True \<in> set (fst (snd (handle example_env False db_violation)))"
    by blast
  from t h4 have c2: "fst (handle example_env False db_violation) \<noteq> None"
    and c3: "fst (snd (handle example_env False db_violation)) = db_violation"
    by blast+
  from t h4 h5 h6
  have c4: "\<exists>gd n. 0 < n \<and> fst (handle example_env False db_violation) = Some (ValueError gd n)"
    by blast
  have g1: "distinct (map position_id db_admin_first)" by code_simp
  have g2: "mk_position 7 1 0 True \<in> set db_admin_first" by code_simp
  have g3: "is_admin (mk_position 7 1 0 True)" by code_simp
  have g4: "fst (handle example_env False db_admin_first) = None" by code_simp
  from admin_positions_never_deleted [of db_admin_first example_env False] g1 g2 g3
  have g5: "mk_position 7 1 0 True \<in> set (fst (snd (handle example_env False db_admin_first)))"
    by blast
  from h1 h2 h3 c1 h4 c2 c3 h5 h6 c4 g1 g2 g3 g4 g5 show ?thesis by (intro conjI)
qed

text \<open>
  Claim C3. Without \<open>--dry-run\<close>, whatever exception ends the run, the table after
  the run is the table before it. In particular, when the groups before the first
  violating group have been merged (inside the transaction their positions are already
  deleted, as the table returned by \<open>_process_duplicates\<close> shows) and the next group
  raises \<open>ValueError\<close>, \<open>handle\<close> leaves the table exactly as it was.
\<close>

theorem rollback_on_exception:
  "(\<forall>e. fst (handle E False db) = Some e \<longrightarrow> fst (snd (handle E False db)) = db) \<and>
   (find_duplicates db = pre @ ((pid, oid, sem, yr), g) # post \<and>
    (\<forall>(k', g')\<in>set pre. admin_positions_to_delete g' = []) \<and>
    admin_positions_to_delete g \<noteq> [] \<and> lookups_succeed E db \<and> deletes_succeed E db \<longrightarrow>
      fst (snd (process_duplicates E False db)) =
        filter (\<lambda>q. position_id q \<notin> deleted_ids pre) db \<and>
      (\<exists>gd n. fst (handle E False db) = Some (ValueError gd n)) \<and>
      fst (snd (handle E False db)) = db)"
proof (intro conjI allI impI)
  fix e assume "fst (handle E False db) = Some e"
  then show "fst (snd (handle E False db)) = db"
    by (simp add: handle_mutating)
next
  assume a: "find_duplicates db = pre @ ((pid, oid, sem, yr), g) # post \<and>
    (\<forall>(k', g')\<in>set pre. admin_positions_to_delete g' = []) \<and>
    admin_positions_to_delete g \<noteq> [] \<and> lookups_succeed E db \<and> deletes_succeed E db"
  then have dups: "find_duplicates db = pre @ ((pid, oid, sem, yr), g) # post"
    and pre: "\<forall>(k', g')\<in>set pre. admin_positions_to_delete g' = []"
    and viol: "admin_positions_to_delete g \<noteq> []"
    and look: "lookups_succeed E db" and del: "False \<or> deletes_succeed E db"
    by simp_all
  from handle_first_violation [OF dups pre viol look del] obtain person org out where
    pd: "process_duplicates E False db =
      (Some (ValueError (person, org, yr, sem) (length (admin_positions_to_delete g))),
       filter (\<lambda>q. position_id q \<notin> deleted_ids pre) db,
       out @ [ProcessingGroup (person, org, yr, sem), FoundPositions (length g),
              ErrorAdminPositions (length (admin_positions_to_delete g)), RollingBack])"
    by auto
  then show "fst (snd (process_duplicates E False db)) =
        filter (\<lambda>q. position_id q \<notin> deleted_ids pre) db" by simp
  from pd show "\<exists>gd n. fst (handle E False db) = Some (ValueError gd n)"
    by (simp add: handle_mutating)
  from pd show "fst (snd (handle E False db)) = db"
    by (simp add: handle_mutating)
qed

theorem rollback_on_exception_witness:
  "fst (handle failing_env False db_two) = Some (DeleteError 1) \<and>
   fst (snd (process_duplicates failing_env False db_two)) =
     [mk_position 1 1 3 False, mk_position 4 2 1 False, mk_position 2 1 1 False,
      mk_position 5 2 2 False] \<and>
   fst (snd (handle failing_env False db_two)) = db_two \<and>
   find_duplicates db_violation =
     [((2, 7, ''Fall'', 2024), [mk_position 4 2 1 False, mk_position 5 2 2 False])] @
     ((1, 7, ''Fall'', 2024),
      [mk_position 1 1 3 False, mk_position 2 1 1 False, mk_position 3 1 2 True]) #
     [((3, 7, ''Fall'', 2024), [mk_position 10 3 1 False, mk_position 11 3 2 False])] \<and>
   admin_positions_to_delete [mk_position 4 2 1 False, mk_position 5 2 2 False] = [] \<and>
   admin_positions_to_delete
     [mk_position 1 1 3 False, mk_position 2 1 1 False, mk_position 3 1 2 True] \<noteq> [] \<and>
   lookups_succeed example_env db_violation \<and> deletes_succeed example_env db_violation \<and>
   fst (snd (process_duplicates example_env False db_violation)) =
     [mk_position 4 2 1 False, mk_position 1 1 3 False, mk_position 2 1 1 False,
      mk_position 3 1 2 True, mk_position 10 3 1 False, mk_position 11 3 2 False] \<and>
   (\<exists>gd n. fst (handle example_env False db_violation) = Some (ValueError gd n)) \<and>
   fst (snd (handle example_env False db_violation)) = db_violation"
proof -
  let ?pre = "[((2, 7, ''Fall'', 2024), [mk_position 4 2 1 False, mk_position 5 2 2 False])]"
  let ?g = "[mk_position 1 1 3 False, mk_position 2 1 1 False, mk_position 3 1 2 True]"
  let ?post = "[((3, 7, ''Fall'', 2024), [mk_position 10 3 1 False, mk_position 11 3 2 False])]"
  have f1: "fst (handle failing_env False db_two) = Some (DeleteError 1)" by code_simp
  have f2: "fst (snd (process_duplicates failing_env False db_two)) =
     [mk_position 1 1 3 False, mk_position 4 2 1 False, mk_position 2 1 1 False,
      mk_position 5 2 2 False]" by code_simp
  from rollback_on_exception [of failing_env db_two] f1
  have f3: "fst (snd (handle failing_env False db_two)) = db_two" by blast
  have h1: "find_duplicates db_violation = ?pre @ ((1, 7, ''Fall'', 2024), ?g) # ?post"
    by code_simp
  have a1: "admin_positions_to_delete [mk_position 4 2 1 False, mk_position 5 2 2 False] = []"
    by code_simp
  then have h2: "\<forall>(k', g')\<in>set ?pre. admin_positions_to_delete g' = []" by simp
  have h3: "admin_positions_to_delete ?g \<noteq> []" by code_simp
  have h4: "lookups_succeed example_env db_violation" by code_simp
  have h5: "deletes_succeed example_env db_violation" by code_simp
  have d: "filter (\<lambda>q. position_id q \<notin> deleted_ids ?pre) db_violation =
     [mk_position 4 2 1 False, mk_position 1 1 3 False, mk_position 2 1 1 False,
      mk_position 3 1 2 True, mk_position 10 3 1 False, mk_position 11 3 2 False]"
    by code_simp
  from rollback_on_exception [of example_env db_violation ?pre 1 7 "''Fall''" 2024 ?g ?post]
    h1 h2 h3 h4 h5
  have c: "fst (snd (process_duplicates example_env False db_violation)) =
        filter (\<lambda>q. position_id q \<notin> deleted_ids ?pre) db_violation \<and>
      (\<exists>gd n. fst (handle example_env False db_violation) = Some (ValueError gd n)) \<and>
      fst (snd (handle example_env False db_violation)) = db_violation"
    by blast
  from c d have c1: "fst (snd (process_duplicates example_env False db_violation)) =
     [mk_position 4 2 1 False, mk_position 1 1 3 False, mk_position 2 1 1 False,
      mk_position 3 1 2 True, mk_position 10 3 1 False, mk_position 11 3 2 False]"
    by simp
  from c have c2: "\<exists>gd n. fst (handle example_env False db_violation) = Some (ValueError gd n)"
    and c3: "fst (snd (handle example_env False db_violation)) = db_violation"
    by blast+
  from f1 f2 f3 h1 a1 h3 h4 h5 c1 c2 c3 show ?thesis by (intro conjI)
qed

text \<open>
  Claim C4. A dry run raises what the run that deletes raises (or returns as it returns),
  writes the same lines (the same groups found, the same positions kept, the same
  counts) after its banner, with the summary worded as a dry-run summary, and leaves the
  table unchanged. The table is unchanged after every dry run; the comparison is with a
  run that deletes and is not cut short by the store refusing a deletion, which a dry
  run never attempts.
\<close>

theorem dry_run_parity:
  "fst (snd (handle E True db)) = db \<and>
   ((\<forall>i. fst (handle E False db) \<noteq> Some (DeleteError i)) \<longrightarrow>
      fst (handle E True db) = fst (handle E False db) \<and>
      snd (snd (handle E True db)) =
        DryRunMode # map dry_run_line (snd (snd (handle E False db))))"
proof (intro conjI impI)
  show "fst (snd (handle E True db)) = db" by (simp add: handle_dry)
next
  assume a: "\<forall>i. fst (handle E False db) \<noteq> Some (DeleteError i)"
  obtain r db' out where pd: "process_duplicates E False db = (r, db', out)"
    by (cases "process_duplicates E False db") auto
  with a have "\<forall>i. r \<noteq> Some (DeleteError i)" by (simp add: handle_mutating)
  from process_duplicates_parity [OF pd this] pd
  show "fst (handle E True db) = fst (handle E False db)"
    and "snd (snd (handle E True db)) =
        DryRunMode # map dry_run_line (snd (snd (handle E False db)))"
    by (simp_all add: handle_dry handle_mutating)
qed

theorem dry_run_parity_witness:
  "fst (handle example_env False db_two) = None \<and>
   fst (handle example_env True db_two) = None \<and>
   fst (snd (handle example_env True db_two)) = db_two \<and>
   snd (snd (handle example_env True db_two)) =
     DryRunMode # map dry_run_line (snd (snd (handle example_env False db_two))) \<and>
   last (snd (snd (handle example_env True db_two))) = DryRunSummary 2 3 \<and>
   fst (handle example_env False db_violation) =
     Some (ValueError (''Li'', ''Chess Club'', 2024, ''Fall'') 1) \<and>
   fst (handle example_env True db_violation) =
     Some (ValueError (''Li'', ''Chess Club'', 2024, ''Fall'') 1) \<and>
   fst (snd (handle example_env True db_violation)) = db_violation \<and>
   snd (snd (handle example_env True db_violation)) =
     DryRunMode # map dry_run_line (snd (snd (handle example_env False db_violation)))"
proof -
  have r1: "fst (handle example_env False db_two) = None" by code_simp
  then have h1: "\<forall>i. fst (handle example_env False db_two) \<noteq> Some (DeleteError i)" by simp
  have r2: "fst (handle example_env False db_violation) =
     Some (ValueError (''Li'', ''Chess Club'', 2024, ''Fall'') 1)" by code_simp
  then have h2: "\<forall>i. fst (handle example_env False db_violation) \<noteq> Some (DeleteError i)"
    by simp
  have l: "last (snd (snd (handle example_env True db_two))) = DryRunSummary 2 3" by code_simp
  from dry_run_parity [of example_env db_two] h1 r1
  have a: "fst (handle example_env True db_two) = None"
    "fst (snd (handle example_env True db_two)) = db_two"
    "snd (snd (handle example_env True db_two)) =
       DryRunMode # map dry_run_line (snd (snd (handle example_env False db_two)))"
    by simp_all
  from dry_run_parity [of example_env db_violation] h2 r2
  have b: "fst (handle example_env True db_violation) =
       Some (ValueError (''Li'', ''Chess Club'', 2024, ''Fall'') 1)"
    "fst (snd (handle example_env True db_violation)) = db_violation"
    "snd (snd (handle example_env True db_violation)) =
       DryRunMode # map dry_run_line (snd (snd (handle example_env False db_violation)))"
    by simp_all
  from r1 a l r2 b show ?thesis by (intro conjI)
qed

text \<open>
  Claim C6. After a run without \<open>--dry-run\<close> that ends without exception, no two
  positions of the table have the same key; so \<open>find_duplicates\<close> on that table is
  empty, and a second run writes that no duplicates were found and deletes nothing.
\<close>

theorem mutating_run_idempotent:
  assumes "fst (handle E False db) = None"
  shows "distinct (map group_key_of (fst (snd (handle E False db)))) \<and>
    find_duplicates (fst (snd (handle E False db))) = [] \<and>
    handle E False (fst (snd (handle E False db))) =
      (None, fst (snd (handle E False db)), [NoDuplicatesFound])"
proof -
  obtain r db' out where pd: "process_duplicates E False db = (r, db', out)"
    by (cases "process_duplicates E False db") auto
  with assms have r: "r = None" and h: "fst (snd (handle E False db)) = db'"
    by (simp_all add: handle_mutating)
  from pd r process_duplicates_None [of E False db db' out]
  consider "find_duplicates db = []" "db' = db"
    | "db' = filter (\<lambda>q. position_id q \<notin> deleted_ids (find_duplicates db)) db"
    by auto
  then have d: "distinct (map group_key_of db')"
  proof cases
    case 1
    then show ?thesis by (simp add: find_duplicates_Nil_iff)
  next
    case 2
    then show ?thesis by (simp add: distinct_keys_after_merge)
  qed
  then have e: "find_duplicates db' = []" by (simp add: find_duplicates_Nil_iff)
  then have "process_duplicates E False db' = (None, db', [NoDuplicatesFound])"
    by (simp add: process_duplicates_def)
  then have "handle E False db' = (None, db', [NoDuplicatesFound])"
    by (simp add: handle_mutating)
  with d e h show ?thesis by simp
qed

theorem mutating_run_idempotent_witness:
  "fst (handle example_env False db_two) = None \<and>
   fst (snd (handle example_env False db_two)) =
     [mk_position 4 2 1 False, mk_position 2 1 1 False] \<and>
   distinct (map group_key_of [mk_position 4 2 1 False, mk_position 2 1 1 False]) \<and>
   find_duplicates [mk_position 4 2 1 False, mk_position 2 1 1 False] = [] \<and>
   handle example_env False [mk_position 4 2 1 False, mk_position 2 1 1 False] =
     (None, [mk_position 4 2 1 False, mk_position 2 1 1 False], [NoDuplicatesFound])"
proof -
  have h: "fst (handle example_env False db_two) = None" by code_simp
  have e: "fst (snd (handle example_env False db_two)) =
     [mk_position 4 2 1 False, mk_position 2 1 1 False]" by code_simp
  from mutating_run_idempotent [OF h, unfolded e] h e show ?thesis by (intro conjI) simp_all
qed

text \<open>
  Claim C7, as amended. The first group with an admin position among its positions to
  delete ends the whole run (the store not failing before): the run raises
  \<open>ValueError\<close> with the group key formatted for display (the text of the person and
  of the organization the key names, the year and the semester; not the key itself) and
  the number of admin positions to delete in it; the last lines written are those of
  that group; and the groups after it are not processed, whatever they are.
\<close>

theorem violation_is_fatal:
  assumes dups: "find_duplicates db = pre @ ((pid, oid, sem, yr), g) # post"
    and pre: "\<forall>(k', g')\<in>set pre. admin_positions_to_delete g' = []"
    and viol: "admin_positions_to_delete g \<noteq> []"
    and look: "lookups_succeed E db" and del: "deletes_succeed E db"
  shows "\<exists>person org out.
    person_str E pid = Some person \<and> org_str E oid = Some org \<and>
    fst (handle E dry_run db) =
      Some (ValueError (person, org, yr, sem) (length (admin_positions_to_delete g))) \<and>
    snd (snd (handle E dry_run db)) =
      out @ [ProcessingGroup (person, org, yr, sem), FoundPositions (length g),
             ErrorAdminPositions (length (admin_positions_to_delete g)), RollingBack] \<and>
    (\<forall>post'. process_groups E dry_run (pre @ ((pid, oid, sem, yr), g) # post') (0, 0) db =
              process_groups E dry_run (pre @ [((pid, oid, sem, yr), g)]) (0, 0) db)"
proof -
  from del have del': "dry_run \<or> deletes_succeed E db" by simp
  from handle_first_violation [OF dups pre viol look del'] obtain person org out where
    names: "person_str E pid = Some person" "org_str E oid = Some org" and
    pd: "process_duplicates E dry_run db =
      (Some (ValueError (person, org, yr, sem) (length (admin_positions_to_delete g))),
       (if dry_run then db else filter (\<lambda>q. position_id q \<notin> deleted_ids pre) db),
       out @ [ProcessingGroup (person, org, yr, sem), FoundPositions (length g),
              ErrorAdminPositions (length (admin_positions_to_delete g)), RollingBack])"
    by blast
  have res: "fst (handle E dry_run db) =
      Some (ValueError (person, org, yr, sem) (length (admin_positions_to_delete g)))"
    using pd by (cases dry_run) (simp_all add: handle_dry handle_mutating)
  have "snd (snd (handle E dry_run db)) =
      ((if dry_run then [DryRunMode] else []) @ out) @
        [ProcessingGroup (person, org, yr, sem), FoundPositions (length g),
         ErrorAdminPositions (length (admin_positions_to_delete g)), RollingBack]"
    using pd by (cases dry_run) (simp_all add: handle_dry handle_mutating)
  moreover have "\<forall>post'. process_groups E dry_run (pre @ ((pid, oid, sem, yr), g) # post') (0, 0) db =
              process_groups E dry_run (pre @ [((pid, oid, sem, yr), g)]) (0, 0) db"
  proof
    fix post'
    from find_duplicates_prefix_clean [OF dups pre look del']
    have clean: "\<forall>d\<in>set pre. clean_group E dry_run d" .
    from process_groups_ok [OF clean, of 0 0 db] obtain t' db' out1 where
      p: "process_groups E dry_run pre (0, 0) db = (Inr t', db', out1)" by blast
    from dups have "((pid, oid, sem, yr), g) \<in> set (find_duplicates db)" by simp
    then have len: "1 < length g" unfolding find_duplicates_iff by blast
    from process_group_violation [OF len names viol, of dry_run sem yr t' db']
    have "fst (process_group E dry_run ((pid, oid, sem, yr), g) t' db') =
      Inl (ValueError (person, org, yr, sem) (length (admin_positions_to_delete g)))"
      by simp
    from process_groups_stops [OF p this]
    show "process_groups E dry_run (pre @ ((pid, oid, sem, yr), g) # post') (0, 0) db =
              process_groups E dry_run (pre @ [((pid, oid, sem, yr), g)]) (0, 0) db" .
  qed
  ultimately show ?thesis using names res by blast
qed

theorem violation_is_fatal_witness:
  "find_duplicates db_violation =
     [((2, 7, ''Fall'', 2024), [mk_position 4 2 1 False, mk_position 5 2 2 False])] @
     ((1, 7, ''Fall'', 2024),
      [mk_position 1 1 3 False, mk_position 2 1 1 False, mk_position 3 1 2 True]) #
     [((3, 7, ''Fall'', 2024), [mk_position 10 3 1 False, mk_position 11 3 2 False])] \<and>
   admin_positions_to_delete [mk_position 4 2 1 False, mk_position 5 2 2 False] = [] \<and>
   admin_positions_to_delete
     [mk_position 1 1 3 False, mk_position 2 1 1 False, mk_position 3 1 2 True] =
     [mk_position 3 1 2 True] \<and>
   lookups_succeed example_env db_violation \<and> deletes_succeed example_env db_violation \<and>
   fst (handle example_env False db_violation) =
     Some (ValueError (''Li'', ''Chess Club'', 2024, ''Fall'') 1) \<and>
   (\<exists>out. snd (snd (handle example_env False db_violation)) =
      out @ [ProcessingGroup (''Li'', ''Chess Club'', 2024, ''Fall''), FoundPositions 3,
             ErrorAdminPositions 1, RollingBack]) \<and>
   process_groups example_env False (find_duplicates db_violation) (0, 0) db_violation =
     process_groups example_env False
       [((2, 7, ''Fall'', 2024), [mk_position 4 2 1 False, mk_position 5 2 2 False]),
        ((1, 7, ''Fall'', 2024),
         [mk_position 1 1 3 False, mk_position 2 1 1 False, mk_position 3 1 2 True])]
       (0, 0) db_violation"
proof -
  let ?pre = "[((2, 7, ''Fall'', 2024), [mk_position 4 2 1 False, mk_position 5 2 2 False])]"
  let ?g = "[mk_position 1 1 3 False, mk_position 2 1 1 False, mk_position 3 1 2 True]"
  let ?post = "[((3, 7, ''Fall'', 2024), [mk_position 10 3 1 False, mk_position 11 3 2 False])]"
  have h1: "find_duplicates db_violation = ?pre @ ((1, 7, ''Fall'', 2024), ?g) # ?post"
    by code_simp
  have a1: "admin_positions_to_delete [mk_position 4 2 1 False, mk_position 5 2 2 False] = []"
    by code_simp
  then have h2: "\<forall>(k', g')\<in>set ?pre. admin_positions_to_delete g' = []" by simp
  have a2: "admin_positions_to_delete ?g = [mk_position 3 1 2 True]" by code_simp
  then have h3: "admin_positions_to_delete ?g \<noteq> []" by simp
  have h4: "lookups_succeed example_env db_violation" by code_simp
  have h5: "deletes_succeed example_env db_violation" by code_simp
  have n: "person_str example_env 1 = Some ''Li''" "org_str example_env 7 = Some ''Chess Club''"
    by code_simp+
  from violation_is_fatal [OF h1 h2 h3 h4 h5, of False] obtain person org out where
    c: "person_str example_env 1 = Some person" "org_str example_env 7 = Some org"
      "fst (handle example_env False db_violation) =
        Some (ValueError (person, org, 2024, ''Fall'') (length (admin_positions_to_delete ?g)))"
      "snd (snd (handle example_env False db_violation)) =
        out @ [ProcessingGroup (person, org, 2024, ''Fall''), FoundPositions (length ?g),
               ErrorAdminPositions (length (admin_positions_to_delete ?g)), RollingBack]"
      "\<forall>post'. process_groups example_env False
          (?pre @ ((1, 7, ''Fall'', 2024), ?g) # post') (0, 0) db_violation =
        process_groups example_env False (?pre @ [((1, 7, ''Fall'', 2024), ?g)]) (0, 0)
          db_violation"
    by blast
  from c(1,2) n have pn: "person = ''Li''" "org = ''Chess Club''" by simp_all
  from c(3) have r: "fst (handle example_env False db_violation) =
     Some (ValueError (''Li'', ''Chess Club'', 2024, ''Fall'') 1)"
    unfolding pn a2 by simp
  from c(4) have o: "\<exists>out. snd (snd (handle example_env False db_violation)) =
      out @ [ProcessingGroup (''Li'', ''Chess Club'', 2024, ''Fall''), FoundPositions 3,
             ErrorAdminPositions 1, RollingBack]"
    unfolding pn a2 by auto
  from c(5) have "process_groups example_env False
          (?pre @ ((1, 7, ''Fall'', 2024), ?g) # ?post) (0, 0) db_violation =
        process_groups example_env False (?pre @ [((1, 7, ''Fall'', 2024), ?g)]) (0, 0)
          db_violation"
    by blast
  then have s: "process_groups example_env False (find_duplicates db_violation) (0, 0)
      db_violation =
     process_groups example_env False
       [((2, 7, ''Fall'', 2024), [mk_position 4 2 1 False, mk_position 5 2 2 False]),
        ((1, 7, ''Fall'', 2024), ?g)]
       (0, 0) db_violation"
    unfolding h1 by simp
  from h1 a1 a2 h4 h5 r o s show ?thesis by (intro conjI)
qed

text \<open>
  The claim C7 as stated (the violation carries the group's identity key) fails: the
  exception and the lines written hold the text of the person and of the organization,
  never \<open>person_id\<close> or \<open>org_id\<close>. With two persons of the same text, the groups of
  the keys \<open>(1, 7, Fall, 2024)\<close> and \<open>(2, 7, Fall, 2024)\<close> raise the same
  \<open>ValueError\<close> and write the same lines, in both modes.
\<close>

theorem violation_display_counterexample:
  "map fst (find_duplicates db_person_one) = [(1, 7, ''Fall'', 2024)] \<and>
   map fst (find_duplicates db_person_two) = [(2, 7, ''Fall'', 2024)] \<and>
   fst (handle same_name_env False db_person_one) =
     Some (ValueError (''Li'', ''Chess Club'', 2024, ''Fall'') 1) \<and>
   fst (handle same_name_env False db_person_two) =
     Some (ValueError (''Li'', ''Chess Club'', 2024, ''Fall'') 1) \<and>
   snd (snd (handle same_name_env False db_person_one)) =
     [FoundGroups 1, ProcessingGroup (''Li'', ''Chess Club'', 2024, ''Fall''), FoundPositions 2,
      ErrorAdminPositions 1, RollingBack] \<and>
   snd (snd (handle same_name_env False db_person_two)) =
     [FoundGroups 1, ProcessingGroup (''Li'', ''Chess Club'', 2024, ''Fall''), FoundPositions 2,
      ErrorAdminPositions 1, RollingBack] \<and>
   fst (handle same_name_env True db_person_one) = fst (handle same_name_env True db_person_two) \<and>
   snd (snd (handle same_name_env True db_person_one)) =
     snd (snd (handle same_name_env True db_person_two))"
  by code_simp

end
